theory Spec2Isabelle
  imports Complex_Main
begin

section \<open>JavaScript strings\<close>

text \<open>
  A JavaScript string is a sequence of UTF-16 code units.  A code unit is modelled by its
  number, so that the white-space and line-terminator classes of ECMAScript (which reach
  beyond ASCII) are the ones \<open>String.prototype.trim\<close> and the regular expression flags
  of the source use.  ASCII literals are written \<open>js ''...''\<close>.
\<close>

type_synonym jstring = "nat list"

definition js :: "string \<Rightarrow> jstring" where
  "js w = map of_char w"

definition NL :: nat where "NL = 10"
definition COMMA :: nat where "COMMA = 44"
definition BACKTICK :: nat where "BACKTICK = 96"

text \<open>Three backticks.\<close>

definition FENCE :: jstring where
  "FENCE = [BACKTICK, BACKTICK, BACKTICK]"

text \<open>ECMAScript LineTerminator: LF, CR, U+2028, U+2029.\<close>

definition is_line_terminator :: "nat \<Rightarrow> bool" where
  "is_line_terminator c = (c = 10 \<or> c = 13 \<or> c = 8232 \<or> c = 8233)"

text \<open>ECMAScript WhiteSpace (TAB, VT, FF, SP, NBSP, ZWNBSP and the category Zs) together
  with LineTerminator: what \<open>trim\<close> strips and what \<open>\s\<close> matches.\<close>

definition is_space :: "nat \<Rightarrow> bool" where
  "is_space c = (c = 9 \<or> c = 11 \<or> c = 12 \<or> c = 32 \<or> c = 160 \<or> c = 5760
     \<or> (8192 \<le> c \<and> c \<le> 8202) \<or> c = 8239 \<or> c = 8287 \<or> c = 12288 \<or> c = 65279
     \<or> is_line_terminator c)"

text \<open>\<open>s.trim()\<close>\<close>

definition trim :: "jstring \<Rightarrow> jstring" where
  "trim s = rev (dropWhile is_space (rev (dropWhile is_space s)))"

text \<open>\<open>s.startsWith(w)\<close>, \<open>s.endsWith(w)\<close>, \<open>s.includes(w)\<close>\<close>

primrec startsWith :: "jstring \<Rightarrow> jstring \<Rightarrow> bool" where
  "startsWith s [] = True"
| "startsWith s (c # w) = (case s of [] \<Rightarrow> False | d # t \<Rightarrow> d = c \<and> startsWith t w)"

definition endsWith :: "jstring \<Rightarrow> jstring \<Rightarrow> bool" where
  "endsWith s w = startsWith (rev s) (rev w)"

primrec includes_str :: "jstring \<Rightarrow> jstring \<Rightarrow> bool" where
  "includes_str [] w = (w = [])"
| "includes_str (c # t) w = (startsWith (c # t) w \<or> includes_str t w)"

text \<open>\<open>s.split(d)\<close> for a one-character separator: the list of the pieces, never empty
  (\<open>''''.split(d)\<close> is the list of one empty string).\<close>

primrec split_acc :: "nat \<Rightarrow> jstring \<Rightarrow> jstring \<Rightarrow> jstring list" where
  "split_acc d cur [] = [rev cur]"
| "split_acc d cur (c # cs) =
     (if c = d then rev cur # split_acc d [] cs else split_acc d (c # cur) cs)"

definition split :: "jstring \<Rightarrow> nat \<Rightarrow> jstring list" where
  "split s d = split_acc d [] s"

text \<open>Decimal rendering of a number inside a template literal, \<open>`${n}`\<close>.\<close>

fun show_nat :: "nat \<Rightarrow> jstring" where
  "show_nat n = (if n < 10 then [48 + n] else show_nat (n div 10) @ [48 + n mod 10])"

declare show_nat.simps [simp del]

definition show_int :: "int \<Rightarrow> jstring" where
  "show_int i = (if i < 0 then 45 # show_nat (nat (- i)) else show_nat (nat i))"

section \<open>Regular expressions\<close>

text \<open>
  The fragment of ECMAScript regular expressions that the patterns of
  \<open>detectDownloadableContent\<close> use, with the backtracking semantics of the language
  standard: a matcher takes a state (position, capture 1) and a continuation, and returns
  the first success of the continuation on the states the pattern can end in, in the order
  backtracking tries them.  The flag \<open>m\<close> is built into \<open>Bol\<close> and \<open>Eol\<close>, the flag
  \<open>i\<close> into \<open>ChrI\<close>.
\<close>

datatype regex =
    Eps                      \<comment> \<open>the empty pattern\<close>
  | Cls "nat \<Rightarrow> bool"          \<comment> \<open>one code unit of a class\<close>
  | Seq regex regex          \<comment> \<open>\<open>ab\<close>\<close>
  | Alt regex regex          \<comment> \<open>\<open>a|b\<close>\<close>
  | Star regex               \<comment> \<open>\<open>a*\<close>, greedy\<close>
  | Plus regex               \<comment> \<open>\<open>a+\<close>, greedy\<close>
  | Opt regex                \<comment> \<open>\<open>a?\<close>, greedy\<close>
  | LazyStar regex           \<comment> \<open>\<open>a*?\<close>\<close>
  | Group regex              \<comment> \<open>\<open>(a)\<close>, capture 1\<close>
  | Bol                      \<comment> \<open>\<open>^\<close> under the flag \<open>m\<close>\<close>
  | Eol                      \<comment> \<open>\<open>$\<close> under the flag \<open>m\<close>\<close>

type_synonym mstate = "nat \<times> (nat \<times> nat) option"
type_synonym cont = "mstate \<Rightarrow> mstate option"

text \<open>A greedy and a lazy loop (RepeatMatcher).  An iteration that consumes nothing is
  rejected, so each accepted iteration moves on by at least one code unit and
  \<open>length s - position\<close> bounds the number of iterations.\<close>

primrec greedy :: "nat \<Rightarrow> (mstate \<Rightarrow> cont \<Rightarrow> mstate option) \<Rightarrow> mstate \<Rightarrow> cont \<Rightarrow> mstate option" where
  "greedy 0 m st k = k st"
| "greedy (Suc n) m st k =
     (case m st (\<lambda>st'. if fst st < fst st' then greedy n m st' k else None) of
        Some r \<Rightarrow> Some r
      | None \<Rightarrow> k st)"

primrec lazy :: "nat \<Rightarrow> (mstate \<Rightarrow> cont \<Rightarrow> mstate option) \<Rightarrow> mstate \<Rightarrow> cont \<Rightarrow> mstate option" where
  "lazy 0 m st k = k st"
| "lazy (Suc n) m st k =
     (case k st of
        Some r \<Rightarrow> Some r
      | None \<Rightarrow> m st (\<lambda>st'. if fst st < fst st' then lazy n m st' k else None))"

primrec rx :: "regex \<Rightarrow> jstring \<Rightarrow> mstate \<Rightarrow> cont \<Rightarrow> mstate option" where
  "rx Eps s st k = k st"
| "rx (Cls P) s st k =
     (if fst st < length s \<and> P (s ! fst st) then k (Suc (fst st), snd st) else None)"
| "rx (Seq a b) s st k = rx a s st (\<lambda>st'. rx b s st' k)"
| "rx (Alt a b) s st k =
     (case rx a s st k of Some r \<Rightarrow> Some r | None \<Rightarrow> rx b s st k)"
| "rx (Star a) s st k = greedy (length s - fst st) (rx a s) st k"
| "rx (Plus a) s st k =
     rx a s st (\<lambda>st'. greedy (length s - fst st') (rx a s) st' k)"
| "rx (Opt a) s st k =
     (case rx a s st (\<lambda>st'. if fst st < fst st' then k st' else None) of
        Some r \<Rightarrow> Some r
      | None \<Rightarrow> k st)"
| "rx (LazyStar a) s st k = lazy (length s - fst st) (rx a s) st k"
| "rx (Group a) s st k = rx a s st (\<lambda>st'. k (fst st', Some (fst st, fst st')))"
| "rx Bol s st k =
     (if fst st = 0 \<or> (fst st \<le> length s \<and> is_line_terminator (s ! (fst st - 1)))
      then k st else None)"
| "rx Eol s st k =
     (if length s \<le> fst st \<or> is_line_terminator (s ! fst st) then k st else None)"

text \<open>Matching at a fixed start and the search from the left (\<open>lastIndex = 0\<close>): the
  first start position with a match, and there the first match in backtracking order.\<close>

definition match_at :: "regex \<Rightarrow> jstring \<Rightarrow> nat \<Rightarrow> mstate option" where
  "match_at r s i = rx r s (i, None) Some"

primrec search_from :: "regex \<Rightarrow> jstring \<Rightarrow> nat list \<Rightarrow> mstate option" where
  "search_from r s [] = None"
| "search_from r s (i # is) =
     (case match_at r s i of Some st \<Rightarrow> Some st | None \<Rightarrow> search_from r s is)"

definition exec :: "regex \<Rightarrow> jstring \<Rightarrow> mstate option" where
  "exec r s = search_from r s [0 ..< Suc (length s)]"

text \<open>\<open>r.test(s)\<close> and capture 1 of \<open>s.match(r)\<close>.\<close>

definition test :: "regex \<Rightarrow> jstring \<Rightarrow> bool" where
  "test r s = (exec r s \<noteq> None)"

definition capture1 :: "regex \<Rightarrow> jstring \<Rightarrow> jstring option" where
  "capture1 r s =
     (case exec r s of
        None \<Rightarrow> None
      | Some (e, None) \<Rightarrow> None
      | Some (e, Some (a, b)) \<Rightarrow> Some (take (b - a) (drop a s)))"

text \<open>Pattern characters: an exact one, and one under the flag \<open>i\<close>.  Canonicalize maps
  an ASCII letter to its upper case and never maps a code unit beyond ASCII into ASCII,
  so against the ASCII letters of the patterns it is ASCII case folding.\<close>

definition canon :: "nat \<Rightarrow> nat" where
  "canon c = (if 97 \<le> c \<and> c \<le> 122 then c - 32 else c)"

definition Chr :: "nat \<Rightarrow> regex" where
  "Chr c = Cls (\<lambda>x. x = c)"

definition ChrI :: "nat \<Rightarrow> regex" where
  "ChrI c = Cls (\<lambda>x. canon x = canon c)"

primrec LitI :: "jstring \<Rightarrow> regex" where
  "LitI [] = Eps"
| "LitI (c # w) = Seq (ChrI c) (LitI w)"

section \<open>JSON.parse\<close>

text \<open>
  \<open>JSON.parse\<close> belongs to the language runtime, not to the repository.  The source only
  observes whether it throws, so it is modelled by a recogniser of the JSON grammar of
  ECMA-404: each function returns the rest of the input behind the phrase it has read.
  The recursion on nested values is bounded by the length of the input.
\<close>

definition json_ws :: "nat \<Rightarrow> bool" where
  "json_ws c = (c = 9 \<or> c = 10 \<or> c = 13 \<or> c = 32)"

definition is_digit :: "nat \<Rightarrow> bool" where
  "is_digit c = (48 \<le> c \<and> c \<le> 57)"

definition is_hex :: "nat \<Rightarrow> bool" where
  "is_hex c = (is_digit c \<or> (65 \<le> c \<and> c \<le> 70) \<or> (97 \<le> c \<and> c \<le> 102))"

definition is_escape :: "nat \<Rightarrow> bool" where
  "is_escape c = (c = 34 \<or> c = 92 \<or> c = 47 \<or> c = 98 \<or> c = 102 \<or> c = 110 \<or> c = 114 \<or> c = 116)"

text \<open>The characters of a string behind its opening quote, up to the closing one.\<close>

fun json_string_body :: "jstring \<Rightarrow> jstring option" where
  "json_string_body [] = None"
| "json_string_body (c # cs) =
     (if c = 34 then Some cs
      else if c = 92 then
        (case cs of
           [] \<Rightarrow> None
         | e # es \<Rightarrow>
             if is_escape e then json_string_body es
             else if e = 117 then
               (case es of
                  h1 # h2 # h3 # h4 # r \<Rightarrow>
                    if is_hex h1 \<and> is_hex h2 \<and> is_hex h3 \<and> is_hex h4
                    then json_string_body r else None
                | _ \<Rightarrow> None)
             else None)
      else if c < 32 then None
      else json_string_body cs)"

definition json_digits1 :: "jstring \<Rightarrow> jstring option" where
  "json_digits1 s =
     (case s of [] \<Rightarrow> None | d # r \<Rightarrow> if is_digit d then Some (dropWhile is_digit r) else None)"

definition json_exponent :: "jstring \<Rightarrow> jstring option" where
  "json_exponent s =
     (case s of
        [] \<Rightarrow> Some s
      | e # r \<Rightarrow>
          if e = 101 \<or> e = 69 then
            (case r of
               [] \<Rightarrow> None
             | g # r' \<Rightarrow> if g = 43 \<or> g = 45 then json_digits1 r' else json_digits1 r)
          else Some s)"

definition json_fraction :: "jstring \<Rightarrow> jstring option" where
  "json_fraction s =
     (case s of
        [] \<Rightarrow> Some s
      | p # r \<Rightarrow>
          if p = 46 then (case json_digits1 r of None \<Rightarrow> None | Some r' \<Rightarrow> json_exponent r')
          else json_exponent s)"

definition json_number :: "jstring \<Rightarrow> jstring option" where
  "json_number s =
     (let u = (case s of [] \<Rightarrow> s | m # r \<Rightarrow> if m = 45 then r else s) in
      case u of
        [] \<Rightarrow> None
      | d # r \<Rightarrow>
          if d = 48 then json_fraction r
          else if is_digit d then json_fraction (dropWhile is_digit r)
          else None)"

definition json_literal :: "jstring \<Rightarrow> jstring \<Rightarrow> jstring option" where
  "json_literal w s = (if startsWith s w then Some (drop (length w) s) else None)"

fun json_value :: "nat \<Rightarrow> jstring \<Rightarrow> jstring option"
  and json_members :: "nat \<Rightarrow> jstring \<Rightarrow> jstring option"
  and json_elements :: "nat \<Rightarrow> jstring \<Rightarrow> jstring option" where
  "json_value 0 s = None"
| "json_value (Suc n) s =
     (case s of
        [] \<Rightarrow> None
      | c # r \<Rightarrow>
          if c = 123 then
            (case dropWhile json_ws r of
               [] \<Rightarrow> None
             | c1 # r1 \<Rightarrow> if c1 = 125 then Some r1 else json_members n (c1 # r1))
          else if c = 91 then
            (case dropWhile json_ws r of
               [] \<Rightarrow> None
             | c1 # r1 \<Rightarrow> if c1 = 93 then Some r1 else json_elements n (c1 # r1))
          else if c = 34 then json_string_body r
          else if c = 116 then json_literal (js ''true'') s
          else if c = 102 then json_literal (js ''false'') s
          else if c = 110 then json_literal (js ''null'') s
          else json_number s)"
| "json_members 0 s = None"
| "json_members (Suc n) s =
     (case dropWhile json_ws s of
        [] \<Rightarrow> None
      | q # r \<Rightarrow>
          if q = 34 then
            (case json_string_body r of
               None \<Rightarrow> None
             | Some r1 \<Rightarrow>
                 (case dropWhile json_ws r1 of
                    [] \<Rightarrow> None
                  | c # r2 \<Rightarrow>
                      if c = 58 then
                        (case json_value n (dropWhile json_ws r2) of
                           None \<Rightarrow> None
                         | Some r3 \<Rightarrow>
                             (case dropWhile json_ws r3 of
                                [] \<Rightarrow> None
                              | d # r4 \<Rightarrow>
                                  if d = 44 then json_members n r4
                                  else if d = 125 then Some r4
                                  else None))
                      else None))
          else None)"
| "json_elements 0 s = None"
| "json_elements (Suc n) s =
     (case json_value n (dropWhile json_ws s) of
        None \<Rightarrow> None
      | Some r \<Rightarrow>
          (case dropWhile json_ws r of
             [] \<Rightarrow> None
           | d # r1 \<Rightarrow>
               if d = 44 then json_elements n r1
               else if d = 93 then Some r1
               else None))"

text \<open>\<open>JSON.parse(s)\<close> returns (does not throw).\<close>

definition JSON_parse_ok :: "jstring \<Rightarrow> bool" where
  "JSON_parse_ok s =
     (case json_value (Suc (length s)) (dropWhile json_ws s) of
        None \<Rightarrow> False
      | Some r \<Rightarrow> dropWhile json_ws r = [])"

section \<open>The response classifier\<close>

text \<open>The object \<open>detectDownloadableContent\<close> returns; \<open>null\<close> is \<open>None\<close>.\<close>

record fileInfo =
  hasFile :: bool
  content :: jstring
  filename :: jstring
  extension :: jstring
  mimeType :: jstring
  ftype :: jstring

text \<open>An entry of the table \<open>patterns\<close>.\<close>

record pattern_entry =
  p_type :: jstring
  p_pattern :: regex
  p_extension :: jstring
  p_mimeType :: jstring

text \<open>\<open>[\s\S]\<close>: every code unit.  \<open>[^,\n]\<close>: every code unit but the comma and the
  line feed.\<close>

definition any_char :: regex where
  "any_char = Cls (\<lambda>c. is_space c \<or> \<not> is_space c)"

definition not_comma_nl :: regex where
  "not_comma_nl = Cls (\<lambda>c. c \<noteq> COMMA \<and> c \<noteq> NL)"

text \<open>\<open>/```TAG\n([\s\S]*?)\n```/i\<close>, where \<open>TAG\<close> is a pattern of its own: a word or an
  alternative of two words.  \<open>fence_tail\<close> is the part behind the tag.\<close>

definition fence_tail :: regex where
  "fence_tail =
     Seq (ChrI NL) (Seq (Group (LazyStar any_char)) (Seq (ChrI NL) (LitI FENCE)))"

definition fence :: "regex \<Rightarrow> regex" where
  "fence tag = Seq (LitI FENCE) (Seq tag fence_tail)"

definition patterns :: "pattern_entry list" where
  "patterns =
     [\<lparr>p_type = js ''csv'', p_pattern = fence (LitI (js ''csv'')),
        p_extension = js ''csv'', p_mimeType = js ''text/csv''\<rparr>,
      \<lparr>p_type = js ''json'', p_pattern = fence (LitI (js ''json'')),
        p_extension = js ''json'', p_mimeType = js ''application/json''\<rparr>,
      \<lparr>p_type = js ''xml'', p_pattern = fence (LitI (js ''xml'')),
        p_extension = js ''xml'', p_mimeType = js ''application/xml''\<rparr>,
      \<lparr>p_type = js ''txt'', p_pattern = fence (Alt (LitI (js ''txt'')) (LitI (js ''text''))),
        p_extension = js ''txt'', p_mimeType = js ''text/plain''\<rparr>,
      \<lparr>p_type = js ''sql'', p_pattern = fence (LitI (js ''sql'')),
        p_extension = js ''sql'', p_mimeType = js ''text/plain''\<rparr>,
      \<lparr>p_type = js ''python'', p_pattern = fence (LitI (js ''python'')),
        p_extension = js ''py'', p_mimeType = js ''text/plain''\<rparr>,
      \<lparr>p_type = js ''javascript'',
        p_pattern = fence (Alt (LitI (js ''javascript'')) (LitI (js ''js''))),
        p_extension = js ''js'', p_mimeType = js ''text/plain''\<rparr>]"

text \<open>\<open>/^[^,\n]+(?:,[^,\n]+)*\n(?:[^,\n]*(?:,[^,\n]*)*\n?)+$/m\<close>\<close>

definition csv_header :: regex where
  "csv_header = Seq (Plus not_comma_nl) (Star (Seq (Chr COMMA) (Plus not_comma_nl)))"

definition csv_rest :: regex where
  "csv_rest =
     Plus (Seq (Star not_comma_nl)
            (Seq (Star (Seq (Chr COMMA) (Star not_comma_nl))) (Opt (Chr NL))))"

definition csvLikePattern :: regex where
  "csvLikePattern = Seq Bol (Seq csv_header (Seq (Chr NL) (Seq csv_rest Eol)))"

text \<open>Rule 1, the block behind the comment "Check for CSV-like content".\<close>

definition csvLikeRule :: "jstring \<Rightarrow> fileInfo option" where
  "csvLikeRule text =
     (if test csvLikePattern (trim text) \<and> includes_str text [COMMA] then
        (case split (trim text) NL of
           [] \<Rightarrow> None
         | l0 # ls \<Rightarrow>
             if length (l0 # ls) > 1 \<and> includes_str l0 [COMMA] then
               Some \<lparr>hasFile = True, content = trim text,
                     filename = js ''analysis_result.csv'', extension = js ''csv'',
                     mimeType = js ''text/csv'', ftype = js ''csv''\<rparr>
             else None)
      else None)"

text \<open>Rule 2, the loop over \<open>patterns\<close>: \<open>match && match[1]\<close> holds when the pattern
  matches and its capture is not the empty string.\<close>

primrec codeBlockRule :: "pattern_entry list \<Rightarrow> jstring \<Rightarrow> fileInfo option" where
  "codeBlockRule [] text = None"
| "codeBlockRule (p # ps) text =
     (case capture1 (p_pattern p) text of
        None \<Rightarrow> codeBlockRule ps text
      | Some m1 \<Rightarrow>
          if m1 \<noteq> [] then
            Some \<lparr>hasFile = True, content = trim m1,
                  filename = js ''analysis_result.'' @ p_extension p,
                  extension = p_extension p, mimeType = p_mimeType p, ftype = p_type p\<rparr>
          else codeBlockRule ps text)"

text \<open>Rule 3, the \<open>try\<close> block: a throwing \<open>JSON.parse\<close> is caught and falls through.\<close>

definition bareJsonRule :: "jstring \<Rightarrow> fileInfo option" where
  "bareJsonRule text =
     (let trimmed = trim text in
      if (startsWith trimmed (js ''{'') \<and> endsWith trimmed (js ''}''))
         \<or> (startsWith trimmed (js ''['') \<and> endsWith trimmed (js '']''))
      then
        (if JSON_parse_ok trimmed then
           Some \<lparr>hasFile = True, content = trimmed,
                 filename = js ''analysis_result.json'', extension = js ''json'',
                 mimeType = js ''application/json'', ftype = js ''json''\<rparr>
         else None)
      else None)"

definition detectDownloadableContent :: "jstring \<Rightarrow> fileInfo option" where
  "detectDownloadableContent text =
     (if text = [] then None
      else case csvLikeRule text of
             Some info \<Rightarrow> Some info
           | None \<Rightarrow>
               (case codeBlockRule patterns text of
                  Some info \<Rightarrow> Some info
                | None \<Rightarrow> bareJsonRule text))"

section \<open>The analysis request and the outbound request\<close>

text \<open>The JSON body of a request to the edge function.  An absent or \<open>null\<close> field is
  \<open>None\<close>.  A JavaScript number is only tested for truthiness and passed on.\<close>

record analysisRequest =
  selectedFiles :: "jstring list"
  prompt :: jstring
  temperature :: "real option"
  maxTokens :: "int option"
  model :: "jstring option"

text \<open>\<open>x || d\<close> on an optional string and on optional numbers: the default replaces every
  falsy value, the empty string and zero as well as an absent one.\<close>

definition str_or :: "jstring option \<Rightarrow> jstring \<Rightarrow> jstring" where
  "str_or x d = (case x of None \<Rightarrow> d | Some v \<Rightarrow> if v = [] then d else v)"

definition int_or :: "int option \<Rightarrow> int \<Rightarrow> int" where
  "int_or x d = (case x of None \<Rightarrow> d | Some v \<Rightarrow> if v = 0 then d else v)"

definition real_or :: "real option \<Rightarrow> real \<Rightarrow> real" where
  "real_or x d = (case x of None \<Rightarrow> d | Some v \<Rightarrow> if v = 0 then d else v)"

text \<open>\<open>openAIRequestBody\<close>: a field that is never assigned is \<open>None\<close> (\<open>JSON.stringify\<close>
  leaves it out).\<close>

record openAIRequestBody =
  rq_model :: jstring
  rq_system :: jstring
  rq_user :: jstring
  max_completion_tokens :: "int option"
  max_tokens :: "int option"
  rq_temperature :: "real option"

definition DEFAULT_MODEL :: jstring where
  "DEFAULT_MODEL = js ''gpt-5-2025-08-07''"

definition SYSTEM_PROMPT :: jstring where
  "SYSTEM_PROMPT = js ''You are a helpful data analyst. Analyze the provided data files according to the user's prompt and provide detailed insights, patterns, and recommendations. Always provide a clear, concise response in your output.''"

definition isGPT5OrNewer :: "jstring option \<Rightarrow> bool" where
  "isGPT5OrNewer m =
     (includes_str (str_or m []) (js ''gpt-5'') \<or> includes_str (str_or m []) (js ''o3'')
      \<or> includes_str (str_or m []) (js ''o4'') \<or> includes_str (str_or m []) (js ''gpt-4.1''))"

definition buildRequestBody :: "analysisRequest \<Rightarrow> jstring \<Rightarrow> openAIRequestBody" where
  "buildRequestBody rq fullPrompt =
     (let body = \<lparr>rq_model = str_or (model rq) DEFAULT_MODEL, rq_system = SYSTEM_PROMPT,
                  rq_user = fullPrompt, max_completion_tokens = None, max_tokens = None,
                  rq_temperature = None\<rparr>
      in if isGPT5OrNewer (model rq)
         then body\<lparr>max_completion_tokens := Some (max (int_or (maxTokens rq) 2000) 1000)\<rparr>
         else body\<lparr>max_tokens := Some (int_or (maxTokens rq) 2000),
                   rq_temperature := Some (real_or (temperature rq) 0.7)\<rparr>)"

section \<open>Usage normalisation and the result\<close>

text \<open>The \<open>usage\<close> object of the provider.  Its fields are token counts; an absent or
  \<open>null\<close> field is \<open>None\<close>, and \<open>a ?? b\<close> takes \<open>b\<close> only then.\<close>

record tokens_details =
  d_reasoning_tokens :: "nat option"

record rawUsage =
  input_tokens :: "nat option"
  prompt_tokens :: "nat option"
  output_tokens :: "nat option"
  completion_tokens :: "nat option"
  reasoning_tokens :: "nat option"
  completion_tokens_details :: "tokens_details option"
  total_tokens :: "nat option"

definition nullish :: "'a option \<Rightarrow> 'a option \<Rightarrow> 'a option" where
  "nullish a b = (case a of Some v \<Rightarrow> Some v | None \<Rightarrow> b)"

definition nullish_or :: "'a option \<Rightarrow> 'a \<Rightarrow> 'a" where
  "nullish_or a d = (case a of Some v \<Rightarrow> v | None \<Rightarrow> d)"

text \<open>\<open>data.usage || {}\<close>\<close>

definition emptyUsage :: rawUsage where
  "emptyUsage = \<lparr>input_tokens = None, prompt_tokens = None, output_tokens = None,
     completion_tokens = None, reasoning_tokens = None, completion_tokens_details = None,
     total_tokens = None\<rparr>"

definition usage_or_empty :: "rawUsage option \<Rightarrow> rawUsage" where
  "usage_or_empty u = (case u of None \<Rightarrow> emptyUsage | Some v \<Rightarrow> v)"

record statistics =
  processingTime :: real
  inputTokens :: nat
  outputTokens :: nat
  reasoningTokens :: nat
  totalTokens :: nat
  st_model :: jstring

definition inputTokens_of :: "rawUsage \<Rightarrow> nat" where
  "inputTokens_of usage = nullish_or (nullish (input_tokens usage) (prompt_tokens usage)) 0"

definition outputTokens_of :: "rawUsage \<Rightarrow> nat" where
  "outputTokens_of usage = nullish_or (nullish (output_tokens usage) (completion_tokens usage)) 0"

text \<open>\<open>usage.completion_tokens_details?.reasoning_tokens\<close>\<close>

definition details_reasoning :: "rawUsage \<Rightarrow> nat option" where
  "details_reasoning usage =
     (case completion_tokens_details usage of None \<Rightarrow> None | Some d \<Rightarrow> d_reasoning_tokens d)"

definition reasoningTokens_of :: "rawUsage \<Rightarrow> nat" where
  "reasoningTokens_of usage =
     nullish_or (nullish (reasoning_tokens usage) (details_reasoning usage)) 0"

definition totalTokens_of :: "rawUsage \<Rightarrow> nat" where
  "totalTokens_of usage =
     nullish_or (total_tokens usage) (inputTokens_of usage + outputTokens_of usage)"

text \<open>The two placeholder messages for an empty text.\<close>

definition reasoning_message :: "nat \<Rightarrow> int option \<Rightarrow> jstring" where
  "reasoning_message rt mt =
     js ''The model completed internal reasoning using '' @ show_nat rt
     @ js '' tokens but produced no visible output. This suggests the max_completion_tokens (''
     @ show_int (int_or mt 2000)
     @ js '') may be too low for this complex analysis. Try increasing to 4000+ tokens or simplifying your prompt.''"

definition empty_message :: jstring where
  "empty_message = js ''The model processed your request but returned empty content. Try rephrasing your prompt or increasing the max tokens setting.''"

definition substituteEmpty :: "int option \<Rightarrow> rawUsage \<Rightarrow> jstring \<Rightarrow> jstring" where
  "substituteEmpty mt usage generatedText =
     (if generatedText = [] \<and> (reasoningTokens_of usage > 0 \<or> outputTokens_of usage > 0) then
        (if reasoningTokens_of usage > 0 then reasoning_message (reasoningTokens_of usage) mt
         else empty_message)
      else generatedText)"

record analysisResult =
  generatedText :: jstring
  fileInfo :: "fileInfo option"
  statistics :: statistics

text \<open>The code from \<open>const usage = data.usage || {}\<close> to the object \<open>result\<close>.  Its
  inputs are the text that the extraction block above it has produced (always a string),
  the usage object of the response, and the measured time after rounding.\<close>

definition buildResult ::
  "analysisRequest \<Rightarrow> openAIRequestBody \<Rightarrow> jstring \<Rightarrow> rawUsage option \<Rightarrow> real \<Rightarrow> analysisResult" where
  "buildResult rq body extracted usage0 seconds =
     (let usage = usage_or_empty usage0;
          generated = substituteEmpty (maxTokens rq) usage extracted
      in \<lparr>generatedText = trim generated,
          fileInfo = detectDownloadableContent generated,
          statistics = \<lparr>processingTime = seconds,
                         inputTokens = inputTokens_of usage,
                         outputTokens = outputTokens_of usage,
                         reasoningTokens = reasoningTokens_of usage,
                         totalTokens = totalTokens_of usage,
                         st_model = rq_model body\<rparr>\<rparr>)"

section \<open>The edge function and the page\<close>

text \<open>What the provider answers: a status that is not a success with its body, or a
  success, of which the model keeps the text the extraction block finds in the body and
  the usage object.\<close>

datatype providerResponse =
    HttpError nat jstring
  | HttpOk jstring "rawUsage option"

text \<open>The collaborators of one invocation: the secret, the authorization header, the
  user the token resolves to (\<open>None\<close> when \<open>getUser\<close> fails), the storage bucket
  (\<open>download\<close> of a path gives the text of the object or fails), the provider, and the
  measured time of the call.\<close>

record env =
  OPENAI_API_KEY :: "jstring option"
  authorization :: "jstring option"
  user_id :: "jstring option"
  download :: "jstring \<Rightarrow> jstring option"
  fetch :: "openAIRequestBody \<Rightarrow> providerResponse"
  seconds_taken :: real

text \<open>The effects, in the order they happen.\<close>

datatype event =
    Download jstring
  | ConsoleError jstring
  | Fetch openAIRequestBody
  | Invoke analysisRequest
  | ToastError jstring
  | ToastSuccess jstring

datatype response =
    ErrorResponse nat jstring
  | OkResponse analysisResult

definition truthy :: "jstring option \<Rightarrow> bool" where
  "truthy x = (case x of None \<Rightarrow> False | Some v \<Rightarrow> v \<noteq> [])"

text \<open>One round of the loop over \<open>selectedFiles\<close>: the state is \<open>fileContents\<close> and the
  trace so far.\<close>

definition section_of :: "jstring \<Rightarrow> jstring \<Rightarrow> jstring" where
  "section_of fileName body = [NL, NL] @ js ''=== File: '' @ fileName @ js '' ==='' @ [NL] @ body"

definition readFile :: "env \<Rightarrow> jstring \<Rightarrow> jstring \<Rightarrow> jstring \<times> event list \<Rightarrow> jstring \<times> event list" where
  "readFile e uid fileName acc =
     (let p1 = uid @ js ''/farm-data/'' @ fileName;
          p2 = uid @ js ''/certification-requirements/'' @ fileName
      in case download e p1 of
           Some body \<Rightarrow> (fst acc @ section_of fileName body, snd acc @ [Download p1])
         | None \<Rightarrow>
             (case download e p2 of
                Some body \<Rightarrow>
                  (fst acc @ section_of fileName body, snd acc @ [Download p1, Download p2])
              | None \<Rightarrow> (fst acc, snd acc @ [Download p1, Download p2, ConsoleError fileName])))"

primrec readFiles :: "env \<Rightarrow> jstring \<Rightarrow> jstring list \<Rightarrow> jstring \<times> event list \<Rightarrow> jstring \<times> event list" where
  "readFiles e uid [] acc = acc"
| "readFiles e uid (f # fs) acc = readFiles e uid fs (readFile e uid f acc)"

definition fullPrompt_of :: "jstring \<Rightarrow> jstring \<Rightarrow> jstring" where
  "fullPrompt_of p fileContents =
     p @ [NL, NL] @ js ''Here are the contents of the selected data files:'' @ [NL]
     @ fileContents @ [NL, NL] @ js ''Please analyze this data according to the prompt above.''"

text \<open>The handler of a POST request (the answer to OPTIONS comes before it).\<close>

definition serve :: "env \<Rightarrow> analysisRequest \<Rightarrow> response \<times> event list" where
  "serve e rq =
     (if \<not> truthy (OPENAI_API_KEY e) then
        (ErrorResponse 500 (js ''OpenAI API key not configured. Please add your OPENAI_API_KEY to Supabase Edge Functions secrets.''), [])
      else if \<not> truthy (authorization e) then
        (ErrorResponse 401 (js ''No authorization header''), [])
      else case user_id e of
        None \<Rightarrow> (ErrorResponse 401 (js ''Unauthorized''), [])
      | Some uid \<Rightarrow>
          (let r = readFiles e uid (selectedFiles rq) ([], []) in
           if fst r = [] then
             (ErrorResponse 400 (js ''No file contents could be read from the selected files''),
              snd r)
           else
             (let body = buildRequestBody rq (fullPrompt_of (prompt rq) (fst r)) in
              case fetch e body of
                HttpError status errorData \<Rightarrow>
                  (ErrorResponse status
                     (js ''OpenAI API error: '' @ show_nat status @ js '' - '' @ errorData),
                   snd r @ [Fetch body])
              | HttpOk extracted usage0 \<Rightarrow>
                  (OkResponse (buildResult rq body extracted usage0 (seconds_taken e)),
                   snd r @ [Fetch body]))))"

text \<open>The state of the page that \<open>handleAnalyze\<close> reads, and the handler: it answers an
  empty selection or a blank prompt with a toast and returns; otherwise it invokes the
  edge function with the four fields of the page (no \<open>model\<close>).\<close>

record pageState =
  pg_selectedFiles :: "jstring list"
  pg_prompt :: jstring
  pg_temperature :: real
  pg_maxTokens :: int

definition request_of :: "pageState \<Rightarrow> analysisRequest" where
  "request_of pg = \<lparr>selectedFiles = pg_selectedFiles pg, prompt = pg_prompt pg,
     temperature = Some (pg_temperature pg), maxTokens = Some (pg_maxTokens pg), model = None\<rparr>"

definition handleAnalyze :: "env \<Rightarrow> pageState \<Rightarrow> event list" where
  "handleAnalyze e pg =
     (if length (pg_selectedFiles pg) = 0 then
        [ToastError (js ''Please select at least one data file first'')]
      else if trim (pg_prompt pg) = [] then
        [ToastError (js ''Please enter a prompt'')]
      else
        [ToastSuccess (js ''Analysis submitted!''), Invoke (request_of pg)]
        @ snd (serve e (request_of pg))
        @ (case fst (serve e (request_of pg)) of
             ErrorResponse status msg \<Rightarrow> [ToastError (js ''Analysis failed'')]
           | OkResponse res \<Rightarrow> [ToastSuccess (js ''Analysis completed successfully!'')]))"

text \<open>The events that leave the system for the inference provider, and those that leave
  the page.\<close>

primrec is_provider_call :: "event \<Rightarrow> bool" where
  "is_provider_call (Download p) = False"
| "is_provider_call (ConsoleError m) = False"
| "is_provider_call (Fetch b) = True"
| "is_provider_call (Invoke r) = False"
| "is_provider_call (ToastError m) = False"
| "is_provider_call (ToastSuccess m) = False"

primrec is_outbound :: "event \<Rightarrow> bool" where
  "is_outbound (Download p) = True"
| "is_outbound (ConsoleError m) = False"
| "is_outbound (Fetch b) = True"
| "is_outbound (Invoke r) = True"
| "is_outbound (ToastError m) = False"
| "is_outbound (ToastSuccess m) = False"

section \<open>What the patterns find, read directly on the string\<close>

text \<open>
  The definitions of this section do not come from the source: they say in terms of
  positions of the string what the patterns of the classifier find, and the theorems
  below prove that the regular expressions of the source compute exactly this.
\<close>

primrec first_some :: "('a \<Rightarrow> 'b option) \<Rightarrow> 'a list \<Rightarrow> 'b option" where
  "first_some f [] = None"
| "first_some f (x # xs) = (case f x of Some r \<Rightarrow> Some r | None \<Rightarrow> first_some f xs)"

text \<open>The word \<open>w\<close> stands in \<open>s\<close> at position \<open>i\<close>, letters compared without case.\<close>

definition lit_at :: "jstring \<Rightarrow> jstring \<Rightarrow> nat \<Rightarrow> bool" where
  "lit_at w s i = (map canon (take (length w) (drop i s)) = map canon w)"

text \<open>A closing fence (a line feed and three backticks) stands at \<open>b\<close>; the nearest one
  at or behind \<open>a\<close> closes the block whose content starts at \<open>a\<close>.\<close>

definition close_at :: "jstring \<Rightarrow> nat \<Rightarrow> bool" where
  "close_at s b = lit_at (NL # FENCE) s b"

definition block_from :: "jstring \<Rightarrow> nat \<Rightarrow> (nat \<times> nat) option" where
  "block_from s a =
     (case List.find (close_at s) [a ..< Suc (length s)] of
        None \<Rightarrow> None
      | Some b \<Rightarrow> Some (a, b))"

text \<open>An opening fence with the tag \<open>w\<close> and its line feed stands at \<open>i\<close> and a closing
  fence follows: the bounds of the content.  Of several tags the first in the list that
  gives a block wins.\<close>

definition open_at :: "jstring \<Rightarrow> jstring \<Rightarrow> nat \<Rightarrow> bool" where
  "open_at w s i = lit_at (FENCE @ w @ [NL]) s i"

definition block_at :: "jstring list \<Rightarrow> jstring \<Rightarrow> nat \<Rightarrow> (nat \<times> nat) option" where
  "block_at tags s i =
     first_some (\<lambda>w. if open_at w s i then block_from s (i + length w + 4) else None) tags"

text \<open>The leftmost block of the tags in the text, and its content.\<close>

definition first_block :: "jstring list \<Rightarrow> jstring \<Rightarrow> (nat \<times> nat) option" where
  "first_block tags s = first_some (block_at tags s) [0 ..< Suc (length s)]"

definition slice :: "jstring \<Rightarrow> nat \<times> nat \<Rightarrow> jstring" where
  "slice s ab = take (snd ab - fst ab) (drop (fst ab) s)"

definition block_content :: "jstring list \<Rightarrow> jstring \<Rightarrow> jstring option" where
  "block_content tags s = map_option (slice s) (first_block tags s)"

text \<open>The table of rule 2 as the specification gives it: the tags of a rule, its kind,
  its extension and its MIME type, in the order the rules are tried; and rule 2 read on
  the blocks.\<close>

definition fence_table :: "(jstring list \<times> jstring \<times> jstring \<times> jstring) list" where
  "fence_table =
     [([js ''csv''], js ''csv'', js ''csv'', js ''text/csv''),
      ([js ''json''], js ''json'', js ''json'', js ''application/json''),
      ([js ''xml''], js ''xml'', js ''xml'', js ''application/xml''),
      ([js ''txt'', js ''text''], js ''txt'', js ''txt'', js ''text/plain''),
      ([js ''sql''], js ''sql'', js ''sql'', js ''text/plain''),
      ([js ''python''], js ''python'', js ''py'', js ''text/plain''),
      ([js ''javascript'', js ''js''], js ''javascript'', js ''js'', js ''text/plain'')]"

definition block_info :: "jstring \<Rightarrow> jstring list \<times> jstring \<times> jstring \<times> jstring \<Rightarrow> fileInfo option" where
  "block_info text row =
     (case row of (tags, kind, ext, mime) \<Rightarrow>
        (case block_content tags text of
           None \<Rightarrow> None
         | Some c \<Rightarrow>
             if c \<noteq> [] then
               Some \<lparr>hasFile = True, content = trim c,
                     filename = js ''analysis_result.'' @ ext, extension = ext,
                     mimeType = mime, ftype = kind\<rparr>
             else None))"

definition codeBlockSpec :: "jstring \<Rightarrow> fileInfo option" where
  "codeBlockSpec text = first_some (block_info text) fence_table"

text \<open>The positions a pattern can span, whatever the order of backtracking: \<open>spans r s i j\<close>
  when \<open>r\<close> can match the code units of \<open>s\<close> from \<open>i\<close> up to \<open>j\<close>.\<close>

primrec spans :: "regex \<Rightarrow> jstring \<Rightarrow> nat \<Rightarrow> nat \<Rightarrow> bool" where
  "spans Eps s = (\<lambda>i j. j = i)"
| "spans (Cls P) s = (\<lambda>i j. i < length s \<and> P (s ! i) \<and> j = Suc i)"
| "spans (Seq a b) s = (\<lambda>i j. \<exists>m. spans a s i m \<and> spans b s m j)"
| "spans (Alt a b) s = (\<lambda>i j. spans a s i j \<or> spans b s i j)"
| "spans (Star a) s = (spans a s)\<^sup>*\<^sup>*"
| "spans (Plus a) s = (\<lambda>i j. \<exists>m. spans a s i m \<and> (spans a s)\<^sup>*\<^sup>* m j)"
| "spans (Opt a) s = (\<lambda>i j. spans a s i j \<or> j = i)"
| "spans (LazyStar a) s = (spans a s)\<^sup>*\<^sup>*"
| "spans (Group a) s = spans a s"
| "spans Bol s =
     (\<lambda>i j. j = i \<and> (i = 0 \<or> (i \<le> length s \<and> is_line_terminator (s ! (i - 1)))))"
| "spans Eol s = (\<lambda>i j. j = i \<and> (length s \<le> i \<or> is_line_terminator (s ! i)))"

primrec no_group :: "regex \<Rightarrow> bool" where
  "no_group Eps = True"
| "no_group (Cls P) = True"
| "no_group (Seq a b) = (no_group a \<and> no_group b)"
| "no_group (Alt a b) = (no_group a \<and> no_group b)"
| "no_group (Star a) = no_group a"
| "no_group (Plus a) = no_group a"
| "no_group (Opt a) = no_group a"
| "no_group (LazyStar a) = no_group a"
| "no_group (Group a) = False"
| "no_group Bol = True"
| "no_group Eol = True"

text \<open>What the CSV-like pattern asks of a text.  A line can start at the start of the
  text and behind any line terminator.  The code units from \<open>p\<close> up to \<open>j\<close> are a row: not
  empty, without a line feed, and without a comma at either end or two commas in a row
  (so every field between the commas is non-empty).  A header is a row that starts a line
  and ends at a line feed.\<close>

definition line_start :: "jstring \<Rightarrow> nat \<Rightarrow> bool" where
  "line_start s p = (p = 0 \<or> (p \<le> length s \<and> is_line_terminator (s ! (p - 1))))"

definition row_at :: "jstring \<Rightarrow> nat \<Rightarrow> nat \<Rightarrow> bool" where
  "row_at s p j =
     (p < j \<and> j \<le> length s \<and> list_all (\<lambda>x. s ! x \<noteq> NL) [p ..< j]
      \<and> s ! p \<noteq> COMMA \<and> s ! (j - 1) \<noteq> COMMA
      \<and> list_all (\<lambda>x. s ! x \<noteq> COMMA \<or> s ! Suc x \<noteq> COMMA) [p ..< j - 1])"

definition header_at :: "jstring \<Rightarrow> nat \<Rightarrow> bool" where
  "header_at s p =
     (line_start s p \<and> list_ex (\<lambda>j. row_at s p j \<and> s ! j = NL) [p ..< length s])"

definition has_header :: "jstring \<Rightarrow> bool" where
  "has_header s = list_ex (header_at s) [0 ..< length s]"

definition first_line :: "jstring \<Rightarrow> jstring" where
  "first_line s = takeWhile (\<lambda>c. c \<noteq> NL) s"

definition csv_like :: "jstring \<Rightarrow> bool" where
  "csv_like s = (has_header s \<and> COMMA \<in> set (first_line s))"

text \<open>The condition as the specification words it: at least two lines, and a comma in
  every line.\<close>

definition every_line_has_comma :: "jstring \<Rightarrow> bool" where
  "every_line_has_comma s =
     (length (split s NL) \<ge> 2 \<and> list_all (\<lambda>l. COMMA \<in> set l) (split s NL))"

text \<open>Auxiliary notions of the proofs about the patterns: a matcher found a match; a
  run of code units of one class; the code units of a field; a row in terms of single
  positions; a field and a further field of the header; the body of the loop behind the
  header; the artifact of one entry of the table of rule 2; the artifact of rule 1; and
  the shape rule 3 asks of the trimmed text.\<close>

definition entry_info :: "jstring \<Rightarrow> pattern_entry \<Rightarrow> fileInfo option" where
  "entry_info text p =
     (case capture1 (p_pattern p) text of
        None \<Rightarrow> None
      | Some m1 \<Rightarrow>
          if m1 \<noteq> [] then
            Some \<lparr>hasFile = True, content = trim m1,
                  filename = js ''analysis_result.'' @ p_extension p,
                  extension = p_extension p, mimeType = p_mimeType p, ftype = p_type p\<rparr>
          else None)"

definition found :: "mstate option \<Rightarrow> bool" where
  "found x = (x \<noteq> None)"

definition run :: "(nat \<Rightarrow> bool) \<Rightarrow> jstring \<Rightarrow> nat \<Rightarrow> nat \<Rightarrow> bool" where
  "run P s i j = (i \<le> j \<and> (i < j \<longrightarrow> j \<le> length s) \<and> (\<forall>x. i \<le> x \<and> x < j \<longrightarrow> P (s ! x)))"

definition ncn :: "nat \<Rightarrow> bool" where
  "ncn c = (c \<noteq> COMMA \<and> c \<noteq> NL)"

definition row :: "jstring \<Rightarrow> nat \<Rightarrow> nat \<Rightarrow> bool" where
  "row s i j =
     (i < j \<and> j \<le> length s \<and> (\<forall>x. i \<le> x \<and> x < j \<longrightarrow> s ! x \<noteq> NL)
      \<and> s ! i \<noteq> COMMA \<and> s ! (j - 1) \<noteq> COMMA
      \<and> (\<forall>x. i \<le> x \<and> Suc x < j \<longrightarrow> s ! x \<noteq> COMMA \<or> s ! Suc x \<noteq> COMMA))"

definition field :: "jstring \<Rightarrow> nat \<Rightarrow> nat \<Rightarrow> bool" where
  "field s i j = (run ncn s i j \<and> i < j)"

definition next_field :: "jstring \<Rightarrow> nat \<Rightarrow> nat \<Rightarrow> bool" where
  "next_field s x y = (x < length s \<and> s ! x = COMMA \<and> field s (Suc x) y)"

definition rest_body :: regex where
  "rest_body = Seq (Star not_comma_nl)
            (Seq (Star (Seq (Chr COMMA) (Star not_comma_nl))) (Opt (Chr NL)))"

definition csv_info :: "jstring \<Rightarrow> fileInfo" where
  "csv_info c = \<lparr>hasFile = True, content = c, filename = js ''analysis_result.csv'',
     extension = js ''csv'', mimeType = js ''text/csv'', ftype = js ''csv''\<rparr>"

definition json_shape :: "jstring \<Rightarrow> bool" where
  "json_shape t =
     ((startsWith t (js ''{'') \<and> endsWith t (js ''}''))
      \<or> (startsWith t (js ''['') \<and> endsWith t (js '']'')))"

text \<open>The file a name resolves to: the farm-data object if there is one, else the
  certification-requirements object.\<close>

definition resolve :: "env \<Rightarrow> jstring \<Rightarrow> jstring \<Rightarrow> jstring option" where
  "resolve e uid fileName =
     (case download e (uid @ js ''/farm-data/'' @ fileName) of
        Some body \<Rightarrow> Some body
      | None \<Rightarrow> download e (uid @ js ''/certification-requirements/'' @ fileName))"

text \<open>The section a name contributes to \<open>fileContents\<close>: none when it does not resolve.\<close>

definition section_opt :: "env \<Rightarrow> jstring \<Rightarrow> jstring \<Rightarrow> jstring" where
  "section_opt e uid f = (case resolve e uid f of None \<Rightarrow> [] | Some b \<Rightarrow> section_of f b)"

section \<open>Examples\<close>

text \<open>Concrete inputs for the instances of the theorems: a request for a legacy model
  with temperature 0, the page with its initial parameters, the page with the temperature
  set to 0, and the usage object \<open>{prompt_tokens: 10, completion_tokens: 5}\<close>.\<close>

definition ex_request :: analysisRequest where
  "ex_request = \<lparr>selectedFiles = [js ''b.csv'', js ''a.csv''], prompt = js ''Summarise'',
     temperature = Some 0, maxTokens = Some 500, model = Some (js ''gpt-4o'')\<rparr>"

definition ex_page :: pageState where
  "ex_page = \<lparr>pg_selectedFiles = [js ''b.csv'', js ''a.csv''], pg_prompt = js ''Summarise'',
     pg_temperature = 0.7, pg_maxTokens = 1000\<rparr>"

definition ex_zero_page :: pageState where
  "ex_zero_page = \<lparr>pg_selectedFiles = [js ''a.csv''], pg_prompt = js ''Summarise'',
     pg_temperature = 0, pg_maxTokens = 1000\<rparr>"

definition ex_usage :: rawUsage where
  "ex_usage = emptyUsage\<lparr>prompt_tokens := Some 10, completion_tokens := Some 5\<rparr>"

text \<open>A bucket in which \<open>b.csv\<close> exists in both folders and \<open>a.csv\<close> only among the
  certification requirements, a provider that answers with an empty text after 42
  reasoning tokens, two pages that must be rejected, and a request with a blank prompt
  as it reaches the edge function when it is not sent by the page.\<close>

definition ex_download :: "jstring \<Rightarrow> jstring option" where
  "ex_download p =
     (if p = js ''u1/farm-data/b.csv'' then Some (js ''farm'')
      else if p = js ''u1/certification-requirements/b.csv'' then Some (js ''cert'')
      else if p = js ''u1/certification-requirements/a.csv'' then Some (js ''req'')
      else None)"

definition ex_reasoning_usage :: rawUsage where
  "ex_reasoning_usage = emptyUsage\<lparr>prompt_tokens := Some 10, completion_tokens := Some 42,
     completion_tokens_details := Some \<lparr>d_reasoning_tokens = Some 42\<rparr>\<rparr>"

definition ex_env :: env where
  "ex_env = \<lparr>OPENAI_API_KEY = Some (js ''key''), authorization = Some (js ''Bearer t''),
     user_id = Some (js ''u1''), download = ex_download,
     fetch = (\<lambda>b. HttpOk [] (Some ex_reasoning_usage)), seconds_taken = 1\<rparr>"

definition ex_body :: "jstring \<Rightarrow> jstring" where
  "ex_body f = (if f = js ''b.csv'' then js ''farm'' else js ''req'')"

definition ex_blank_page :: pageState where
  "ex_blank_page = \<lparr>pg_selectedFiles = [js ''a.csv''], pg_prompt = [32, 9, NL, 32],
     pg_temperature = 0.7, pg_maxTokens = 1000\<rparr>"

definition ex_blank_request :: analysisRequest where
  "ex_blank_request = \<lparr>selectedFiles = [js ''b.csv''], prompt = [32, 9, NL, 32],
     temperature = Some 0.7, maxTokens = Some 1000, model = None\<rparr>"

definition ex_empty_page :: pageState where
  "ex_empty_page = \<lparr>pg_selectedFiles = [], pg_prompt = js ''Summarise'',
     pg_temperature = 0.7, pg_maxTokens = 1000\<rparr>"

text \<open>Texts for the classifier: fenced blocks, CSV-like texts and bare JSON.\<close>

definition ex_json_block :: jstring where
  \<open>ex_json_block = FENCE @ js ''json'' @ [NL] @ js ''{"a":1}'' @ [NL] @ FENCE\<close>

definition ex_empty_csv_block :: jstring where
  "ex_empty_csv_block = FENCE @ js ''csv'' @ [NL] @ [] @ [NL] @ FENCE"

definition ex_two_blocks :: jstring where
  "ex_two_blocks = FENCE @ js ''csv'' @ [NL] @ [] @ [NL] @ FENCE @ [NL]
     @ FENCE @ js ''JSON'' @ [NL] @ js '' {} '' @ [NL] @ FENCE"

definition ex_csv :: jstring where
  "ex_csv = js ''a,b'' @ [NL] @ js ''1,2''"

definition ex_csv_padded :: jstring where
  "ex_csv_padded = [32] @ ex_csv @ [NL]"

definition ex_csv_prose :: jstring where
  "ex_csv_prose = js ''a,b'' @ [NL] @ js ''hello''"

definition ex_csv_empty_field :: jstring where
  "ex_csv_empty_field = js ''a,,b'' @ [NL] @ js ''c,d''"

definition ex_json :: jstring where
  \<open>ex_json = js ''{"x":1}''\<close>

definition ex_json_two_lines :: jstring where
  \<open>ex_json_two_lines = js ''{"a":1,"b":2'' @ [NL] @ js ''}''\<close>

definition ex_not_json :: jstring where
  "ex_not_json = js ''{not valid json''"

definition ex_csv_and_block :: jstring where
  "ex_csv_and_block = js ''a,b'' @ [NL] @ FENCE @ js ''json'' @ [NL] @ js ''{}'' @ [NL] @ FENCE"

section \<open>Properties\<close>

subsection \<open>The request adapter\<close>

text \<open>The shape of the outbound request in the two branches: a model of the reasoning
  family gets no temperature and a completion cap of at least 1000; every other model gets
  \<open>max_tokens\<close> without a floor and a temperature.  In both branches a falsy parameter
  (absent, \<open>null\<close> or zero) is replaced by the default.\<close>

lemma reasoning_shape:
  assumes "isGPT5OrNewer (model rq)"
  shows "rq_temperature (buildRequestBody rq fp) = None
         \<and> max_tokens (buildRequestBody rq fp) = None
         \<and> max_completion_tokens (buildRequestBody rq fp)
             = Some (max (case maxTokens rq of None \<Rightarrow> 2000 | Some n \<Rightarrow> if n = 0 then 2000 else n) 1000)"
  using assms by (simp add: buildRequestBody_def int_or_def Let_def split: option.splits)

lemma legacy_shape:
  assumes "\<not> isGPT5OrNewer (model rq)"
  shows "max_completion_tokens (buildRequestBody rq fp) = None
         \<and> max_tokens (buildRequestBody rq fp)
             = Some (case maxTokens rq of None \<Rightarrow> 2000 | Some n \<Rightarrow> if n = 0 then 2000 else n)
         \<and> rq_temperature (buildRequestBody rq fp)
             = Some (case temperature rq of None \<Rightarrow> 0.7 | Some x \<Rightarrow> if x = 0 then 0.7 else x)"
  using assms by (simp add: buildRequestBody_def int_or_def real_or_def Let_def split: option.splits)

text \<open>
  Claim C2, at its failing inputs.  The request the page sends when its temperature field
  is set to 0 names no model and carries the temperature 0.  It goes out to the default
  model \<open>gpt-5-2025-08-07\<close>, a model of the reasoning family, in the legacy shape: with
  \<open>max_tokens\<close>, no completion cap, and the temperature 0.7.  The class is computed from the
  absent name, not from the model the request is sent to, and zero is falsy, so
  \<open>temperature || 0.7\<close> replaces it.  The same replacement happens for a request that names
  the legacy model \<open>gpt-4o\<close>.
\<close>

theorem adapter_failing_inputs:
  "temperature (request_of ex_zero_page) = Some 0
   \<and> model (request_of ex_zero_page) = None
   \<and> buildRequestBody (request_of ex_zero_page) fp
     = \<lparr>rq_model = js ''gpt-5-2025-08-07'', rq_system = SYSTEM_PROMPT, rq_user = fp,
        max_completion_tokens = None, max_tokens = Some 1000, rq_temperature = Some 0.7\<rparr>
   \<and> isGPT5OrNewer (Some (js ''gpt-5-2025-08-07''))
   \<and> buildRequestBody \<lparr>selectedFiles = [js ''a.csv''], prompt = js ''p'', temperature = Some 0,
       maxTokens = Some 500, model = Some (js ''gpt-4o'')\<rparr> fp
     = \<lparr>rq_model = js ''gpt-4o'', rq_system = SYSTEM_PROMPT, rq_user = fp,
        max_completion_tokens = None, max_tokens = Some 500, rq_temperature = Some 0.7\<rparr>"
  by (simp add: buildRequestBody_def isGPT5OrNewer_def str_or_def int_or_def real_or_def
      request_of_def ex_zero_page_def DEFAULT_MODEL_def js_def)

text \<open>
  Claim C10.  In the legacy branch a request whose temperature is 0 goes out with the
  temperature 0.7: zero is falsy, so \<open>temperature || 0.7\<close> takes the default, and the
  temperature 0 never reaches the provider.
\<close>

theorem legacy_temperature_zero:
  assumes "\<not> isGPT5OrNewer (model rq)" and "temperature rq = Some 0"
  shows "rq_temperature (buildRequestBody rq fullPrompt) = Some 0.7
         \<and> rq_temperature (buildRequestBody rq fullPrompt) \<noteq> Some 0"
  using assms by (simp add: buildRequestBody_def real_or_def Let_def)

theorem legacy_temperature_zero_witness:
  "\<not> isGPT5OrNewer (model ex_request) \<and> temperature ex_request = Some 0
   \<and> rq_temperature (buildRequestBody ex_request []) = Some 0.7
   \<and> rq_temperature (buildRequestBody ex_request []) \<noteq> Some 0"
proof -
  have a: "\<not> isGPT5OrNewer (model ex_request)"
    by (simp add: ex_request_def isGPT5OrNewer_def str_or_def js_def)
  have b: "temperature ex_request = Some 0"
    by (simp add: ex_request_def)
  from legacy_temperature_zero [OF a b, of "[]"] a b show ?thesis by simp
qed

subsection \<open>Usage normalisation\<close>

text \<open>
  Claim C5.  The statistics of the result take \<open>inputTokens\<close> from \<open>input_tokens\<close>, else
  from \<open>prompt_tokens\<close>, else 0; \<open>outputTokens\<close> from \<open>output_tokens\<close>, else from
  \<open>completion_tokens\<close>, else 0; \<open>reasoningTokens\<close> from the top-level \<open>reasoning_tokens\<close>,
  else from \<open>completion_tokens_details.reasoning_tokens\<close>, else 0; and \<open>totalTokens\<close> from
  \<open>total_tokens\<close>, else the sum of \<open>inputTokens\<close> and \<open>outputTokens\<close>.
\<close>

theorem usage_normalisation:
  "statistics (buildResult rq body extracted (Some usage) secs) =
     \<lparr>processingTime = secs,
      inputTokens =
        (case input_tokens usage of Some n \<Rightarrow> n
         | None \<Rightarrow> (case prompt_tokens usage of Some n \<Rightarrow> n | None \<Rightarrow> 0)),
      outputTokens =
        (case output_tokens usage of Some n \<Rightarrow> n
         | None \<Rightarrow> (case completion_tokens usage of Some n \<Rightarrow> n | None \<Rightarrow> 0)),
      reasoningTokens =
        (case reasoning_tokens usage of Some n \<Rightarrow> n
         | None \<Rightarrow>
             (case completion_tokens_details usage of
                None \<Rightarrow> 0
              | Some d \<Rightarrow> (case d_reasoning_tokens d of Some n \<Rightarrow> n | None \<Rightarrow> 0))),
      totalTokens =
        (case total_tokens usage of Some n \<Rightarrow> n
         | None \<Rightarrow>
             (case input_tokens usage of Some n \<Rightarrow> n
              | None \<Rightarrow> (case prompt_tokens usage of Some n \<Rightarrow> n | None \<Rightarrow> 0))
             + (case output_tokens usage of Some n \<Rightarrow> n
                | None \<Rightarrow> (case completion_tokens usage of Some n \<Rightarrow> n | None \<Rightarrow> 0))),
      st_model = rq_model body\<rparr>"
  by (simp add: buildResult_def usage_or_empty_def inputTokens_of_def outputTokens_of_def
      reasoningTokens_of_def totalTokens_of_def details_reasoning_def nullish_def nullish_or_def
      Let_def split: option.splits)

theorem usage_normalisation_witness:
  "statistics (buildResult ex_request (buildRequestBody ex_request []) [] (Some ex_usage) 1) =
     \<lparr>processingTime = 1, inputTokens = 10, outputTokens = 5, reasoningTokens = 0,
      totalTokens = 15, st_model = js ''gpt-4o''\<rparr>"
proof -
  have m: "rq_model (buildRequestBody ex_request []) = js ''gpt-4o''"
    by (simp add: buildRequestBody_def ex_request_def str_or_def Let_def js_def)
  show ?thesis
    using usage_normalisation [of ex_request "buildRequestBody ex_request []" "[]" ex_usage 1]
    by (simp add: m ex_usage_def emptyUsage_def)
qed






subsection \<open>Reading the files\<close>


lemma readFile_contents:
  "fst (readFile e uid f acc) = fst acc @ section_opt e uid f"
  by (simp add: readFile_def section_opt_def resolve_def Let_def split: option.splits)

lemma readFiles_contents:
  "fst (readFiles e uid fs acc) = fst acc @ concat (map (section_opt e uid) fs)"
  by (induction fs arbitrary: acc) (simp_all add: readFile_contents)

lemma readFile_no_call:
  "list_ex is_provider_call (snd (readFile e uid f acc)) = list_ex is_provider_call (snd acc)"
  by (simp add: readFile_def Let_def list_ex_iff split: option.splits)

lemma readFiles_no_call:
  "list_ex is_provider_call (snd (readFiles e uid fs acc)) = list_ex is_provider_call (snd acc)"
  by (induction fs arbitrary: acc) (simp_all add: readFile_no_call)

lemma section_of_not_Nil [simp]: "section_of f b \<noteq> []"
  by (simp add: section_of_def)

lemma contents_empty_iff:
  "fst (readFiles e uid fs ([], [])) = [] \<longleftrightarrow> (\<forall>f \<in> set fs. resolve e uid f = None)"
  by (auto simp: readFiles_contents section_opt_def split: option.splits)

lemma serve_authenticated:
  assumes "truthy (OPENAI_API_KEY e)" "truthy (authorization e)" "user_id e = Some uid"
  shows "serve e rq =
     (let r = readFiles e uid (selectedFiles rq) ([], []) in
      if fst r = [] then
        (ErrorResponse 400 (js ''No file contents could be read from the selected files''), snd r)
      else
        (let body = buildRequestBody rq (fullPrompt_of (prompt rq) (fst r)) in
         case fetch e body of
           HttpError status errorData \<Rightarrow>
             (ErrorResponse status
                (js ''OpenAI API error: '' @ show_nat status @ js '' - '' @ errorData),
              snd r @ [Fetch body])
         | HttpOk extracted usage0 \<Rightarrow>
             (OkResponse (buildResult rq body extracted usage0 (seconds_taken e)),
              snd r @ [Fetch body])))"
  using assms by (simp add: serve_def)

lemma serve_no_call_unauth:
  assumes "\<not> (truthy (OPENAI_API_KEY e) \<and> truthy (authorization e) \<and> user_id e \<noteq> None)"
  shows "snd (serve e rq) = [] \<and> (\<exists>st m. fst (serve e rq) = ErrorResponse st m)"
  using assms by (auto simp: serve_def split: option.splits)

lemma api_error_is_not_no_content:
  "js ''OpenAI API error: '' @ x \<noteq> js ''No file contents could be read from the selected files''"
  by (simp add: js_def)

text \<open>
  Claim C8.  For an authenticated request: a name that resolves in the farm-data folder
  contributes the bytes found there, and the certification-requirements folder is not
  asked, whatever it holds; only when the first download fails is the second tried; a name
  that resolves in neither folder leaves \<open>fileContents\<close> as it was and logs an error, and
  the loop goes on.  The request fails with the error "No file contents could be read"
  exactly when no selected name resolves, and the provider is called exactly when some
  name does.
\<close>

theorem resolution_order:
  assumes "truthy (OPENAI_API_KEY e)" "truthy (authorization e)" "user_id e = Some uid"
  shows
    "(download e (uid @ js ''/farm-data/'' @ f) = Some b \<longrightarrow>
        readFile e uid f acc
          = (fst acc @ section_of f b, snd acc @ [Download (uid @ js ''/farm-data/'' @ f)]))
     \<and> (download e (uid @ js ''/farm-data/'' @ f) = None
        \<and> download e (uid @ js ''/certification-requirements/'' @ f) = Some b \<longrightarrow>
        readFile e uid f acc
          = (fst acc @ section_of f b,
             snd acc @ [Download (uid @ js ''/farm-data/'' @ f),
                        Download (uid @ js ''/certification-requirements/'' @ f)]))
     \<and> (download e (uid @ js ''/farm-data/'' @ f) = None
        \<and> download e (uid @ js ''/certification-requirements/'' @ f) = None \<longrightarrow>
        readFile e uid f acc
          = (fst acc,
             snd acc @ [Download (uid @ js ''/farm-data/'' @ f),
                        Download (uid @ js ''/certification-requirements/'' @ f),
                        ConsoleError f]))
     \<and> (fst (serve e rq)
           = ErrorResponse 400 (js ''No file contents could be read from the selected files'')
        \<longleftrightarrow> (\<forall>g \<in> set (selectedFiles rq). resolve e uid g = None))
     \<and> (list_ex is_provider_call (snd (serve e rq))
        \<longleftrightarrow> (\<exists>g \<in> set (selectedFiles rq). resolve e uid g \<noteq> None))"
proof -
  let ?r = "readFiles e uid (selectedFiles rq) ([], [])"
  have nc: "\<not> list_ex is_provider_call (snd ?r)"
    by (simp add: readFiles_no_call)
  have emp: "fst ?r = [] \<longleftrightarrow> (\<forall>g \<in> set (selectedFiles rq). resolve e uid g = None)"
    by (rule contents_empty_iff)
  have resp: "fst (serve e rq)
           = ErrorResponse 400 (js ''No file contents could be read from the selected files'')
        \<longleftrightarrow> fst ?r = []"
    by (simp add: serve_authenticated [OF assms] Let_def api_error_is_not_no_content
        split: providerResponse.splits)
  have call: "list_ex is_provider_call (snd (serve e rq)) \<longleftrightarrow> fst ?r \<noteq> []"
    using nc by (simp add: serve_authenticated [OF assms] Let_def split: providerResponse.splits)
  show ?thesis
    using resp call emp by (auto simp: readFile_def Let_def)
qed


lemma ex_env_auth:
  "truthy (OPENAI_API_KEY ex_env)" "truthy (authorization ex_env)" "user_id ex_env = Some (js ''u1'')"
  by (simp_all add: ex_env_def truthy_def js_def)

lemma ex_download_simps:
  "download ex_env (js ''u1'' @ js ''/farm-data/'' @ js ''b.csv'') = Some (js ''farm'')"
  "download ex_env (js ''u1'' @ js ''/certification-requirements/'' @ js ''b.csv'') = Some (js ''cert'')"
  "download ex_env (js ''u1'' @ js ''/farm-data/'' @ js ''a.csv'') = None"
  "download ex_env (js ''u1'' @ js ''/certification-requirements/'' @ js ''a.csv'') = Some (js ''req'')"
  "download ex_env (js ''u1'' @ js ''/farm-data/'' @ js ''c.csv'') = None"
  "download ex_env (js ''u1'' @ js ''/certification-requirements/'' @ js ''c.csv'') = None"
  by (simp_all add: ex_env_def ex_download_def js_def)

theorem resolution_order_witness:
  "readFile ex_env (js ''u1'') (js ''b.csv'') ([], [])
     = (section_of (js ''b.csv'') (js ''farm''), [Download (js ''u1'' @ js ''/farm-data/'' @ js ''b.csv'')])
   \<and> download ex_env (js ''u1'' @ js ''/certification-requirements/'' @ js ''b.csv'') = Some (js ''cert'')
   \<and> list_ex is_provider_call (snd (serve ex_env ex_request))
   \<and> fst (serve ex_env (ex_request\<lparr>selectedFiles := [js ''c.csv'']\<rparr>))
        = ErrorResponse 400 (js ''No file contents could be read from the selected files'')
   \<and> \<not> list_ex is_provider_call (snd (serve ex_env (ex_request\<lparr>selectedFiles := [js ''c.csv'']\<rparr>)))"
proof -
  note th = resolution_order [OF ex_env_auth]
  have r: "resolve ex_env (js ''u1'') (js ''b.csv'') = Some (js ''farm'')"
       "resolve ex_env (js ''u1'') (js ''c.csv'') = None"
    by (simp_all add: resolve_def ex_download_simps)
  have 1: "readFile ex_env (js ''u1'') (js ''b.csv'') ([], [])
     = (section_of (js ''b.csv'') (js ''farm''), [Download (js ''u1'' @ js ''/farm-data/'' @ js ''b.csv'')])"
    using th [of "js ''b.csv''" "js ''farm''" "([], [])" ex_request] by (simp add: ex_download_simps)
  have 2: "list_ex is_provider_call (snd (serve ex_env ex_request))"
    using th [of "js ''b.csv''" "js ''farm''" "([], [])" ex_request] r
    by (simp add: ex_request_def)
  have 3: "fst (serve ex_env (ex_request\<lparr>selectedFiles := [js ''c.csv'']\<rparr>))
        = ErrorResponse 400 (js ''No file contents could be read from the selected files'')"
       "\<not> list_ex is_provider_call (snd (serve ex_env (ex_request\<lparr>selectedFiles := [js ''c.csv'']\<rparr>)))"
    using th [of "js ''b.csv''" "js ''farm''" "([], [])" "ex_request\<lparr>selectedFiles := [js ''c.csv'']\<rparr>"] r
    by (simp_all add: ex_request_def)
  show ?thesis using 1 2 3 by (simp add: ex_download_simps)
qed

subsection \<open>The composite prompt\<close>

text \<open>
  Claim C9.  When every selected name resolves, \<open>fileContents\<close> is the concatenation, in
  the order of the request, of one section per name, each opened by the delimiter line
  \<open>=== File: <name> ===\<close>; and the prompt that goes to the provider holds this block between
  the prompt of the request and the closing instruction.  The storage is asked by path
  only, so no listing order enters.
\<close>

theorem file_order_preserved:
  assumes "\<forall>f \<in> set (selectedFiles rq). resolve e uid f = Some (body f)"
    and "truthy (OPENAI_API_KEY e)" "truthy (authorization e)" "user_id e = Some uid"
    and "selectedFiles rq \<noteq> []"
  shows "fst (readFiles e uid (selectedFiles rq) ([], []))
           = concat (map (\<lambda>f. [NL, NL] @ js ''=== File: '' @ f @ js '' ==='' @ [NL] @ body f)
               (selectedFiles rq))
     \<and> Fetch (buildRequestBody rq
          (prompt rq @ [NL, NL] @ js ''Here are the contents of the selected data files:'' @ [NL]
           @ concat (map (\<lambda>f. [NL, NL] @ js ''=== File: '' @ f @ js '' ==='' @ [NL] @ body f)
               (selectedFiles rq))
           @ [NL, NL] @ js ''Please analyze this data according to the prompt above.''))
         \<in> set (snd (serve e rq))"
proof -
  let ?r = "readFiles e uid (selectedFiles rq) ([], [])"
  have "map (section_opt e uid) (selectedFiles rq)
      = map (\<lambda>f. [NL, NL] @ js ''=== File: '' @ f @ js '' ==='' @ [NL] @ body f) (selectedFiles rq)"
    using assms(1) by (simp add: section_opt_def section_of_def)
  then have c: "fst ?r
      = concat (map (\<lambda>f. [NL, NL] @ js ''=== File: '' @ f @ js '' ==='' @ [NL] @ body f)
               (selectedFiles rq))"
    by (simp only: readFiles_contents fst_conv append_Nil)
  have ne: "fst ?r \<noteq> []"
  proof -
    from assms(5) obtain g where "g \<in> set (selectedFiles rq)"
      by (cases "selectedFiles rq") auto
    with assms(1) have "\<not> (\<forall>f \<in> set (selectedFiles rq). resolve e uid f = None)"
      by auto
    then show ?thesis by (simp only: contents_empty_iff not_False_eq_True)
  qed
  have "Fetch (buildRequestBody rq (fullPrompt_of (prompt rq) (fst ?r))) \<in> set (snd (serve e rq))"
    using ne by (simp add: serve_authenticated [OF assms(2-4)] Let_def split: providerResponse.splits)
  then show ?thesis
    unfolding c [symmetric] by (simp add: fullPrompt_of_def)
qed


theorem file_order_preserved_witness:
  "selectedFiles ex_request = [js ''b.csv'', js ''a.csv'']
   \<and> fst (readFiles ex_env (js ''u1'') (selectedFiles ex_request) ([], []))
       = [NL, NL] @ js ''=== File: b.csv ==='' @ [NL] @ js ''farm''
         @ [NL, NL] @ js ''=== File: a.csv ==='' @ [NL] @ js ''req''"
proof -
  have r: "\<forall>f \<in> set (selectedFiles ex_request). resolve ex_env (js ''u1'') f = Some (ex_body f)"
    by (simp add: ex_request_def resolve_def ex_download_simps ex_body_def) (simp add: js_def)
  have n: "selectedFiles ex_request \<noteq> []" by (simp add: ex_request_def)
  from file_order_preserved [OF r ex_env_auth n] show ?thesis
    by (simp add: ex_request_def ex_body_def) (simp add: js_def)
qed



subsection \<open>Validation\<close>



lemma serve_empty_selection:
  assumes "selectedFiles rq = []"
  shows "\<not> list_ex is_provider_call (snd (serve e rq)) \<and> (\<exists>st m. fst (serve e rq) = ErrorResponse st m)"
  using assms by (auto simp: serve_def Let_def split: option.splits)

text \<open>The edge function reads \<open>prompt\<close> only to build the composite prompt: whether it
  calls the provider depends on the files alone.\<close>

lemma serve_call_prompt:
  "list_ex is_provider_call (snd (serve e (rq\<lparr>prompt := p\<rparr>)))
   = list_ex is_provider_call (snd (serve e rq))"
  by (simp add: serve_def Let_def readFiles_no_call split: option.splits providerResponse.splits)

lemma serve_call_iff:
  assumes "truthy (OPENAI_API_KEY e)" "truthy (authorization e)" "user_id e = Some uid"
  shows "list_ex is_provider_call (snd (serve e rq))
         \<longleftrightarrow> (\<exists>g \<in> set (selectedFiles rq). resolve e uid g \<noteq> None)"
proof -
  let ?r = "readFiles e uid (selectedFiles rq) ([], [])"
  have nc: "\<not> list_ex is_provider_call (snd ?r)"
    by (simp add: readFiles_no_call)
  have "list_ex is_provider_call (snd (serve e rq)) \<longleftrightarrow> fst ?r \<noteq> []"
    using nc by (simp add: serve_authenticated [OF assms] Let_def split: providerResponse.splits)
  then show ?thesis by (simp add: contents_empty_iff)
qed

text \<open>
  Claim C7, amended.  With an empty selection or a blank prompt \<open>handleAnalyze\<close> shows an
  error toast and returns: it does not invoke the edge function, so nothing is downloaded
  and the provider is not called.  The edge function answers every request with an empty
  selection by an error, without a call of the provider.  It has no check of the prompt:
  for an authenticated caller it calls the provider exactly when one selected name
  resolves, and replacing the prompt of a request, by a blank one or any other, does not
  change whether the provider is called.
\<close>

theorem validation_rejects:
  "(pg_selectedFiles pg = [] \<or> trim (pg_prompt pg) = [] \<longrightarrow>
      (\<exists>m. handleAnalyze e pg = [ToastError m])
      \<and> \<not> list_ex is_outbound (handleAnalyze e pg)
      \<and> \<not> list_ex is_provider_call (handleAnalyze e pg))
   \<and> (selectedFiles rq = [] \<longrightarrow>
        \<not> list_ex is_provider_call (snd (serve e rq))
        \<and> (\<exists>st m. fst (serve e rq) = ErrorResponse st m))
   \<and> (truthy (OPENAI_API_KEY e) \<and> truthy (authorization e) \<and> user_id e = Some uid \<longrightarrow>
        (list_ex is_provider_call (snd (serve e rq))
         \<longleftrightarrow> (\<exists>g \<in> set (selectedFiles rq). resolve e uid g \<noteq> None)))
   \<and> list_ex is_provider_call (snd (serve e (rq\<lparr>prompt := p\<rparr>)))
     = list_ex is_provider_call (snd (serve e rq))"
proof (intro conjI impI)
  assume a: "pg_selectedFiles pg = [] \<or> trim (pg_prompt pg) = []"
  then show "\<exists>m. handleAnalyze e pg = [ToastError m]"
    by (auto simp: handleAnalyze_def)
  from a show "\<not> list_ex is_outbound (handleAnalyze e pg)"
    by (auto simp: handleAnalyze_def)
  from a show "\<not> list_ex is_provider_call (handleAnalyze e pg)"
    by (auto simp: handleAnalyze_def)
next
  assume "selectedFiles rq = []"
  from serve_empty_selection [OF this]
  show "\<not> list_ex is_provider_call (snd (serve e rq))"
    "\<exists>st m. fst (serve e rq) = ErrorResponse st m" by blast+
next
  assume "truthy (OPENAI_API_KEY e) \<and> truthy (authorization e) \<and> user_id e = Some uid"
  then show "list_ex is_provider_call (snd (serve e rq))
         \<longleftrightarrow> (\<exists>g \<in> set (selectedFiles rq). resolve e uid g \<noteq> None)"
    by (simp add: serve_call_iff)
next
  show "list_ex is_provider_call (snd (serve e (rq\<lparr>prompt := p\<rparr>)))
     = list_ex is_provider_call (snd (serve e rq))"
    by (rule serve_call_prompt)
qed

theorem validation_rejects_witness:
  "pg_selectedFiles ex_empty_page = [] \<and> trim (pg_prompt ex_blank_page) = []
   \<and> handleAnalyze ex_env ex_empty_page = [ToastError (js ''Please select at least one data file first'')]
   \<and> handleAnalyze ex_env ex_blank_page = [ToastError (js ''Please enter a prompt'')]
   \<and> \<not> list_ex is_outbound (handleAnalyze ex_env ex_empty_page)
   \<and> \<not> list_ex is_outbound (handleAnalyze ex_env ex_blank_page)
   \<and> selectedFiles (request_of ex_empty_page) = []
   \<and> \<not> list_ex is_provider_call (snd (serve ex_env (request_of ex_empty_page)))
   \<and> truthy (OPENAI_API_KEY ex_env) \<and> truthy (authorization ex_env)
   \<and> user_id ex_env = Some (js ''u1'')
   \<and> resolve ex_env (js ''u1'') (js ''b.csv'') \<noteq> None
   \<and> list_ex is_provider_call (snd (serve ex_env ex_request))
   \<and> list_ex is_provider_call (snd (serve ex_env (ex_request\<lparr>prompt := []\<rparr>)))"
proof -
  have a: "pg_selectedFiles ex_empty_page = []" by (simp add: ex_empty_page_def)
  have a': "selectedFiles (request_of ex_empty_page) = []"
    by (simp add: request_of_def ex_empty_page_def)
  have b: "trim (pg_prompt ex_blank_page) = []"
    by (simp add: ex_blank_page_def trim_def is_space_def is_line_terminator_def NL_def)
  have c: "handleAnalyze ex_env ex_empty_page = [ToastError (js ''Please select at least one data file first'')]"
    by (simp add: handleAnalyze_def a)
  have d: "handleAnalyze ex_env ex_blank_page = [ToastError (js ''Please enter a prompt'')]"
    by (simp add: handleAnalyze_def b) (simp add: ex_blank_page_def)
  have r: "resolve ex_env (js ''u1'') (js ''b.csv'') \<noteq> None"
    by (simp add: resolve_def ex_download_simps)
  have s: "\<exists>g \<in> set (selectedFiles ex_request). resolve ex_env (js ''u1'') g \<noteq> None"
    using r by (simp add: ex_request_def)
  from validation_rejects [of ex_empty_page ex_env "request_of ex_empty_page" "js ''u1''" "[]"]
    validation_rejects [of ex_blank_page ex_env ex_request "js ''u1''" "[]"]
    a a' b c d r s ex_env_auth
  show ?thesis by simp
qed

text \<open>
  The claim as stated, for every request that reaches the system, fails at the edge
  function: a request with a whitespace-only prompt and one readable file is sent to the
  provider and answered with success.
\<close>

theorem validation_counterexample:
  "selectedFiles ex_blank_request \<noteq> []
   \<and> trim (prompt ex_blank_request) = []
   \<and> snd (serve ex_env ex_blank_request)
     = [Download (js ''u1/farm-data/b.csv''),
        Fetch (buildRequestBody ex_blank_request
                 (fullPrompt_of [32, 9, NL, 32] (section_of (js ''b.csv'') (js ''farm''))))]
   \<and> list_ex is_provider_call (snd (serve ex_env ex_blank_request))
   \<and> (case fst (serve ex_env ex_blank_request) of
         OkResponse res \<Rightarrow> True | ErrorResponse st m \<Rightarrow> False)"
proof -
  have 1: "selectedFiles ex_blank_request = [js ''b.csv'']" "prompt ex_blank_request = [32, 9, NL, 32]"
    by (simp_all add: ex_blank_request_def)
  have 2: "trim [32, 9, NL, 32] = []"
    by (simp add: trim_def is_space_def is_line_terminator_def NL_def)
  have 3: "readFile ex_env (js ''u1'') (js ''b.csv'') ([], [])
           = (section_of (js ''b.csv'') (js ''farm''), [Download (js ''u1/farm-data/b.csv'')])"
    by (simp add: readFile_def Let_def ex_download_simps) (simp add: js_def)
  have 4: "fetch ex_env b = HttpOk [] (Some ex_reasoning_usage)" for b
    by (simp add: ex_env_def)
  show ?thesis
    by (simp add: serve_authenticated [OF ex_env_auth] 1 2 3 4 Let_def)
qed

subsection \<open>Empty text\<close>

lemma trim_id:
  assumes "s \<noteq> []" "\<not> is_space (hd s)" "\<not> is_space (last s)"
  shows "trim s = s"
proof -
  from assms(1,2) have a: "dropWhile is_space s = s" by (cases s) simp_all
  from assms(1,3) have b: "dropWhile is_space (rev s) = rev s"
    by (cases "rev s") (simp_all add: last_rev [symmetric] del: last_rev)
  show ?thesis by (simp add: trim_def a b)
qed

lemma hd_js_append: "hd (js (c # w) @ r) = of_char c"
  by (simp add: js_def)

lemma last_append_js: "w \<noteq> [] \<Longrightarrow> last (r @ js w) = of_char (last w)"
  by (simp add: js_def last_map)

lemma trim_reasoning_message: "trim (reasoning_message rt mt) = reasoning_message rt mt"
proof (rule trim_id)
  show "reasoning_message rt mt \<noteq> []"
    by (simp add: reasoning_message_def js_def)
  show "\<not> is_space (hd (reasoning_message rt mt))"
    unfolding reasoning_message_def by (simp only: hd_js_append) (simp add: is_space_def is_line_terminator_def)
  show "\<not> is_space (last (reasoning_message rt mt))"
    unfolding reasoning_message_def append_assoc [symmetric]
    by (subst last_append_js) (simp_all add: is_space_def is_line_terminator_def)
qed

lemma trim_empty_message: "trim empty_message = empty_message"
proof (rule trim_id)
  show "empty_message \<noteq> []"
    by (simp add: empty_message_def js_def)
  show "\<not> is_space (hd (empty_message))"
    using hd_js_append [where r = "[]"]
    unfolding empty_message_def by (simp add: is_space_def is_line_terminator_def)
  show "\<not> is_space (last (empty_message))"
    using last_append_js [where r = "[]"]
    unfolding empty_message_def
    by (simp add: is_space_def is_line_terminator_def)
qed



lemma serve_completed:
  assumes "truthy (OPENAI_API_KEY e)" "truthy (authorization e)" "user_id e = Some uid"
    and "fst (readFiles e uid (selectedFiles rq) ([], [])) \<noteq> []"
    and "fetch e (buildRequestBody rq (fullPrompt_of (prompt rq)
           (fst (readFiles e uid (selectedFiles rq) ([], []))))) = HttpOk extracted usage0"
  shows "fst (serve e rq) =
     OkResponse (buildResult rq (buildRequestBody rq (fullPrompt_of (prompt rq)
           (fst (readFiles e uid (selectedFiles rq) ([], []))))) extracted usage0 (seconds_taken e))"
  using assms(4,5) by (simp add: serve_authenticated [OF assms(1-3)] Let_def)

lemma statistics_buildResult:
  "statistics (buildResult rq body extracted usage0 secs) =
     \<lparr>processingTime = secs,
      inputTokens = inputTokens_of (usage_or_empty usage0),
      outputTokens = outputTokens_of (usage_or_empty usage0),
      reasoningTokens = reasoningTokens_of (usage_or_empty usage0),
      totalTokens = totalTokens_of (usage_or_empty usage0),
      st_model = rq_model body\<rparr>"
  by (simp add: buildResult_def Let_def)

lemma generatedText_buildResult:
  "generatedText (buildResult rq body extracted usage0 secs)
     = trim (substituteEmpty (maxTokens rq) (usage_or_empty usage0) extracted)"
  by (simp add: buildResult_def Let_def)

lemma reasoning_message_names_cap:
  "\<exists>pre post. reasoning_message rt mt = pre @ show_int (int_or mt 2000) @ post"
  unfolding reasoning_message_def
  by (metis append.assoc)

lemma show_nat_not_Nil [simp]: "show_nat n \<noteq> []"
  by (subst show_nat.simps) simp

text \<open>
  Claim C6, amended.  When the provider call completes with an empty text and reasoning or
  output tokens were counted, the request succeeds and the text of the result is a
  non-empty placeholder.  If reasoning tokens were counted, the placeholder is the message
  that names their number and the \<open>maxTokens\<close> of the request (2000 when that is absent or
  zero); if only output tokens were counted, it is the fixed message, which names no value.
  The statistics are those of the usage object, untouched by the substitution.
\<close>

theorem empty_text_substitution:
  assumes "truthy (OPENAI_API_KEY e)" "truthy (authorization e)" "user_id e = Some uid"
    and "fst (readFiles e uid (selectedFiles rq) ([], [])) \<noteq> []"
    and "fetch e (buildRequestBody rq (fullPrompt_of (prompt rq)
           (fst (readFiles e uid (selectedFiles rq) ([], []))))) = HttpOk [] (Some usage)"
    and "0 < reasoningTokens_of usage \<or> 0 < outputTokens_of usage"
  shows "\<exists>res. fst (serve e rq) = OkResponse res
     \<and> generatedText res \<noteq> []
     \<and> (0 < reasoningTokens_of usage \<longrightarrow>
          generatedText res = reasoning_message (reasoningTokens_of usage) (maxTokens rq)
          \<and> (\<exists>pre post. generatedText res
                = pre @ show_int (case maxTokens rq of None \<Rightarrow> 2000
                                  | Some n \<Rightarrow> if n = 0 then 2000 else n) @ post))
     \<and> (reasoningTokens_of usage = 0 \<longrightarrow> generatedText res = empty_message)
     \<and> reasoningTokens (statistics res) = reasoningTokens_of usage
     \<and> outputTokens (statistics res) = outputTokens_of usage
     \<and> inputTokens (statistics res) = inputTokens_of usage
     \<and> totalTokens (statistics res) = totalTokens_of usage"
proof -
  let ?body = "buildRequestBody rq (fullPrompt_of (prompt rq)
           (fst (readFiles e uid (selectedFiles rq) ([], []))))"
  let ?res = "buildResult rq ?body [] (Some usage) (seconds_taken e)"
  have r: "fst (serve e rq) = OkResponse ?res"
    by (rule serve_completed [OF assms(1-5)])
  have c: "int_or (maxTokens rq) 2000
         = (case maxTokens rq of None \<Rightarrow> 2000 | Some n \<Rightarrow> if n = 0 then 2000 else n)"
    by (simp add: int_or_def)
  have g1: "generatedText ?res = reasoning_message (reasoningTokens_of usage) (maxTokens rq)"
    if "0 < reasoningTokens_of usage"
    using that
    by (simp add: generatedText_buildResult substituteEmpty_def usage_or_empty_def trim_reasoning_message)
  have g2: "generatedText ?res = empty_message" if "reasoningTokens_of usage = 0"
    using that assms(6)
    by (simp add: generatedText_buildResult substituteEmpty_def usage_or_empty_def trim_empty_message)
  have ne: "generatedText ?res \<noteq> []"
  proof (cases "0 < reasoningTokens_of usage")
    case True
    then show ?thesis by (simp add: g1 reasoning_message_def js_def)
  next
    case False
    then show ?thesis by (simp add: g2 empty_message_def js_def)
  qed
  have n: "\<exists>pre post. generatedText ?res
                = pre @ show_int (case maxTokens rq of None \<Rightarrow> 2000
                                  | Some n \<Rightarrow> if n = 0 then 2000 else n) @ post"
    if "0 < reasoningTokens_of usage"
    using reasoning_message_names_cap [of "reasoningTokens_of usage" "maxTokens rq"] g1 [OF that]
    by (simp only: c)
  show ?thesis
    using r ne g1 g2 n
    by (simp add: statistics_buildResult usage_or_empty_def)
qed

theorem empty_text_substitution_witness:
  "\<exists>res. fst (serve ex_env ex_request) = OkResponse res
     \<and> generatedText res = reasoning_message 42 (Some 500)
     \<and> generatedText res \<noteq> []
     \<and> reasoningTokens (statistics res) = 42"
proof -
  have rd: "fst (readFiles ex_env (js ''u1'') (selectedFiles ex_request) ([], [])) \<noteq> []"
  proof -
    have "resolve ex_env (js ''u1'') (js ''b.csv'') \<noteq> None"
      by (simp add: resolve_def ex_download_simps)
    then show ?thesis
      by (simp only: contents_empty_iff) (simp add: ex_request_def)
  qed
  have f: "fetch ex_env b = HttpOk [] (Some ex_reasoning_usage)" for b
    by (simp add: ex_env_def)
  have t: "reasoningTokens_of ex_reasoning_usage = 42"
    by (simp add: reasoningTokens_of_def ex_reasoning_usage_def emptyUsage_def nullish_def
        nullish_or_def details_reasoning_def)
  then have p: "0 < reasoningTokens_of ex_reasoning_usage \<or> 0 < outputTokens_of ex_reasoning_usage"
    by simp
  from empty_text_substitution [OF ex_env_auth rd f p] t
  show ?thesis by (auto simp: ex_request_def)
qed

theorem empty_text_counterexample:
  "maxTokens ex_request = Some 500
   \<and> reasoningTokens_of ex_usage = 0 \<and> outputTokens_of ex_usage = 5
   \<and> generatedText (buildResult ex_request (buildRequestBody ex_request []) [] (Some ex_usage) 1)
       = empty_message
   \<and> \<not> list_ex is_digit empty_message
   \<and> \<not> includes_str empty_message (show_int 500)"
proof -
  have a: "reasoningTokens_of ex_usage = 0" "outputTokens_of ex_usage = 5"
    by (simp_all add: reasoningTokens_of_def outputTokens_of_def ex_usage_def emptyUsage_def
        nullish_def nullish_or_def details_reasoning_def)
  have g: "generatedText (buildResult ex_request (buildRequestBody ex_request []) [] (Some ex_usage) 1)
       = empty_message"
    by (simp add: generatedText_buildResult substituteEmpty_def usage_or_empty_def a trim_empty_message)
  have d: "\<not> list_ex is_digit empty_message"
    by (simp add: empty_message_def js_def is_digit_def)
  have s: "show_int 500 = [53, 48, 48]"
    by (simp add: show_int_def show_nat.simps)
  have i: "\<not> includes_str empty_message (show_int 500)"
    unfolding s by (simp add: empty_message_def js_def)
  show ?thesis using a g d i by (simp add: ex_request_def)
qed



section \<open>Properties of the classifier\<close>


subsection \<open>The fence patterns\<close>

lemma canon_NL [simp]: "canon x = canon NL \<longleftrightarrow> x = NL"
  by (auto simp: canon_def NL_def)

lemma canon_BACKTICK [simp]: "canon x = canon BACKTICK \<longleftrightarrow> x = BACKTICK"
  by (auto simp: canon_def BACKTICK_def)

lemma lit_at_Nil [simp]: "lit_at [] s i"
  by (simp add: lit_at_def)

lemma lit_at_Cons:
  "lit_at (c # w) s i \<longleftrightarrow> i < length s \<and> canon (s ! i) = canon c \<and> lit_at w s (Suc i)"
proof (cases "i < length s")
  case True
  then have "drop i s = s ! i # drop (Suc i) s"
    by (simp add: Cons_nth_drop_Suc)
  then show ?thesis using True by (simp add: lit_at_def)
next
  case False
  then show ?thesis by (simp add: lit_at_def)
qed

lemma lit_at_append:
  "lit_at (u @ w) s i \<longleftrightarrow> lit_at u s i \<and> lit_at w s (i + length u)"
  by (induction u arbitrary: i) (auto simp: lit_at_Cons)

lemma rx_ChrI:
  "rx (ChrI c) s st k = (if lit_at [c] s (fst st) then k (Suc (fst st), snd st) else None)"
  by (simp add: ChrI_def lit_at_Cons)

lemma rx_LitI:
  "rx (LitI w) s st k = (if lit_at w s (fst st) then k (fst st + length w, snd st) else None)"
proof (induction w arbitrary: st)
  case Nil
  then show ?case by simp
next
  case (Cons c w)
  show ?case
    by (simp add: rx_ChrI Cons.IH lit_at_Cons [of c "w"] lit_at_Cons [of c "[]"])
qed

lemma lazy_any:
  "a + n = length s \<Longrightarrow>
   lazy n (rx any_char s) (a, c) k = first_some (\<lambda>j. k (j, c)) [a ..< Suc (a + n)]"
proof (induction n arbitrary: a)
  case 0
  then show ?case by (simp split: option.splits)
next
  case (Suc n)
  have u: "[a ..< Suc (a + Suc n)] = a # [Suc a ..< Suc (Suc a + n)]"
    by (simp add: upt_rec)
  from Suc.prems have "a < length s" "Suc a + n = length s" by simp_all
  then show ?case
    using Suc.IH [of "Suc a"] unfolding u
    by (simp add: any_char_def split: option.splits)
qed

lemma first_some_find:
  "first_some (\<lambda>j. if P j then Some (f j) else None) xs = map_option f (List.find P xs)"
  by (induction xs) simp_all

lemma first_some_map_option:
  "first_some (\<lambda>x. map_option g (f x)) xs = map_option g (first_some f xs)"
  by (induction xs) (simp_all split: option.splits)

lemma search_from_first_some: "search_from r s is = first_some (match_at r s) is"
  by (induction "is") (simp_all split: option.splits)

lemma rx_close:
  "rx (Seq (ChrI NL) (LitI FENCE)) s st Some =
     (if close_at s (fst st) then Some (fst st + 4, snd st) else None)"
proof -
  have c: "close_at s j \<longleftrightarrow> lit_at [NL] s j \<and> lit_at FENCE s (Suc j)" for j
    using lit_at_append [of "[NL]" FENCE s j] by (simp add: close_at_def)
  have l: "length FENCE = 3" by (simp add: FENCE_def)
  show ?thesis
    by (simp add: rx_ChrI rx_LitI c l del: LitI.simps)
qed

lemma rx_group_lazy:
  assumes "fst st \<le> length s"
  shows "rx (Group (LazyStar any_char)) s st k =
         first_some (\<lambda>j. k (j, Some (fst st, j))) [fst st ..< Suc (length s)]"
proof -
  have l: "fst st + (length s - fst st) = length s" using assms by simp
  have "rx (Group (LazyStar any_char)) s st k =
        lazy (length s - fst st) (rx any_char s) (fst st, snd st)
          (\<lambda>st'. k (fst st', Some (fst st, fst st')))"
    by simp
  also have "\<dots> = first_some (\<lambda>j. k (j, Some (fst st, j)))
                     [fst st ..< Suc (fst st + (length s - fst st))]"
    by (subst lazy_any [OF l]) simp
  finally show ?thesis by (simp only: l)
qed

lemma rx_fence_tail:
  "rx fence_tail s st Some =
     (if lit_at [NL] s (fst st)
      then map_option (\<lambda>ab. (snd ab + 4, Some ab)) (block_from s (Suc (fst st))) else None)"
proof (cases "lit_at [NL] s (fst st)")
  case False
  then show ?thesis
    by (simp add: fence_tail_def rx_ChrI)
next
  case True
  then have i: "fst st < length s" by (simp add: lit_at_Cons)
  then have le: "fst (Suc (fst st), snd st) \<le> length s" by simp
  have "rx fence_tail s st Some =
        rx (Group (LazyStar any_char)) s (Suc (fst st), snd st)
          (\<lambda>st'. rx (Seq (ChrI NL) (LitI FENCE)) s st' Some)"
    using True by (simp add: fence_tail_def rx_ChrI)
  also have "\<dots> = first_some (\<lambda>j. if close_at s j then Some (j + 4, Some (Suc (fst st), j)) else None)
          [Suc (fst st) ..< Suc (length s)]"
    by (subst rx_group_lazy [OF le]) (simp add: rx_close del: rx.simps upt_Suc cong: if_cong)
  also have "\<dots> = map_option (\<lambda>ab. (snd ab + 4, Some ab)) (block_from s (Suc (fst st)))"
    by (simp add: first_some_find block_from_def option.map_comp comp_def del: upt_Suc split: option.splits)
  finally show ?thesis using True by simp
qed

text \<open>The tag of a fence pattern: a word, or an alternative of two words.\<close>

lemma length_FENCE [simp]: "length FENCE = 3"
  by (simp add: FENCE_def)

lemma open_at_iff:
  "open_at w s i \<longleftrightarrow> lit_at FENCE s i \<and> lit_at w s (i + 3) \<and> lit_at [NL] s (i + 3 + length w)"
  unfolding open_at_def lit_at_append by simp

lemma rx_after_fence:
  "rx (LitI w) s (i + 3, None) (\<lambda>st'. rx fence_tail s st' Some)
     = (if lit_at w s (i + 3) \<and> lit_at [NL] s (i + 3 + length w)
        then map_option (\<lambda>ab. (snd ab + 4, Some ab)) (block_from s (i + length w + 4))
        else None)"
proof -
  have e: "Suc (i + 3 + length w) = i + length w + 4" by simp
  show ?thesis
    unfolding rx_LitI rx_fence_tail fst_conv snd_conv e by simp
qed

lemma rx_LitI_FENCE:
  "rx (LitI FENCE) s (i, None) k = (if lit_at FENCE s i then k (i + 3, None) else None)"
  unfolding rx_LitI by simp

lemma match_at_fence_word:
  "match_at (fence (LitI w)) s i = map_option (\<lambda>ab. (snd ab + 4, Some ab)) (block_at [w] s i)"
proof -
  have "match_at (fence (LitI w)) s i
      = (if lit_at FENCE s i
         then rx (LitI w) s (i + 3, None) (\<lambda>st'. rx fence_tail s st' Some) else None)"
    unfolding match_at_def fence_def rx.simps rx_LitI_FENCE ..
  also have "\<dots> = map_option (\<lambda>ab. (snd ab + 4, Some ab)) (block_at [w] s i)"
    unfolding rx_after_fence block_at_def open_at_iff by (simp split: option.splits)
  finally show ?thesis .
qed

lemma match_at_fence_alt:
  "match_at (fence (Alt (LitI w1) (LitI w2))) s i
     = map_option (\<lambda>ab. (snd ab + 4, Some ab)) (block_at [w1, w2] s i)"
proof -
  have "match_at (fence (Alt (LitI w1) (LitI w2))) s i
      = (if lit_at FENCE s i
         then (case rx (LitI w1) s (i + 3, None) (\<lambda>st'. rx fence_tail s st' Some) of
                 Some r \<Rightarrow> Some r
               | None \<Rightarrow> rx (LitI w2) s (i + 3, None) (\<lambda>st'. rx fence_tail s st' Some))
         else None)"
    unfolding match_at_def fence_def rx.simps rx_LitI_FENCE ..
  also have "\<dots> = map_option (\<lambda>ab. (snd ab + 4, Some ab)) (block_at [w1, w2] s i)"
    unfolding rx_after_fence block_at_def open_at_iff by (simp split: option.splits)
  finally show ?thesis .
qed

lemma capture1_of_blocks:
  assumes "\<And>i. match_at r s i = map_option (\<lambda>ab. (snd ab + 4, Some ab)) (block_at tags s i)"
  shows "capture1 r s = block_content tags s"
proof -
  have m: "match_at r s = (\<lambda>i. map_option (\<lambda>ab. (snd ab + 4, Some ab)) (block_at tags s i))"
    by (rule ext) (rule assms)
  have "exec r s = map_option (\<lambda>ab. (snd ab + 4, Some ab)) (first_block tags s)"
    unfolding exec_def search_from_first_some first_block_def m first_some_map_option ..
  then show ?thesis
    by (cases "first_block tags s") (auto simp: capture1_def block_content_def slice_def)
qed

lemma capture1_fence_word: "capture1 (fence (LitI w)) s = block_content [w] s"
  by (rule capture1_of_blocks) (rule match_at_fence_word)

lemma capture1_fence_alt:
  "capture1 (fence (Alt (LitI w1) (LitI w2))) s = block_content [w1, w2] s"
  by (rule capture1_of_blocks) (rule match_at_fence_alt)


lemma codeBlockRule_first_some: "codeBlockRule ps text = first_some (entry_info text) ps"
  by (induction ps) (simp_all add: entry_info_def split: option.splits)

lemma entry_info_word:
  "entry_info text \<lparr>p_type = kind, p_pattern = fence (LitI w), p_extension = ext, p_mimeType = mime\<rparr>
     = block_info text ([w], kind, ext, mime)"
  by (simp add: entry_info_def block_info_def capture1_fence_word del: LitI.simps split: option.splits)

lemma entry_info_alt:
  "entry_info text \<lparr>p_type = kind, p_pattern = fence (Alt (LitI w1) (LitI w2)), p_extension = ext,
       p_mimeType = mime\<rparr>
     = block_info text ([w1, w2], kind, ext, mime)"
  by (simp add: entry_info_def block_info_def capture1_fence_alt del: LitI.simps split: option.splits)

lemma codeBlockRule_spec: "codeBlockRule patterns text = codeBlockSpec text"
  unfolding codeBlockRule_first_some patterns_def codeBlockSpec_def fence_table_def
    first_some.simps entry_info_word entry_info_alt ..



declare upt_Suc [simp del]

subsection \<open>What a block is\<close>

lemma canon_FENCE: "map canon u = map canon FENCE \<longleftrightarrow> u = FENCE"
proof
  assume "map canon u = map canon FENCE"
  then show "u = FENCE"
    by (auto simp: FENCE_def map_eq_Cons_conv)
qed simp

lemma canon_NL_FENCE: "map canon u = map canon (NL # FENCE) \<longleftrightarrow> u = NL # FENCE"
proof
  assume "map canon u = map canon (NL # FENCE)"
  then obtain z zs where "u = z # zs" "canon z = canon NL" "map canon zs = map canon FENCE"
    by (cases u) auto
  then show "u = NL # FENCE" by (simp add: canon_FENCE)
qed simp

lemma map_canon_append:
  assumes "map canon u = map canon a @ r"
  shows "\<exists>u1 v. u = u1 @ v \<and> map canon u1 = map canon a \<and> map canon v = r"
proof (intro exI conjI)
  show "u = take (length a) u @ drop (length a) u" by simp
  from assms [symmetric] have "map canon a = take (length (map canon a)) (map canon u)"
    "r = drop (length (map canon a)) (map canon u)"
    unfolding append_eq_conv_conj by blast+
  then show "map canon (take (length a) u) = map canon a" "map canon (drop (length a) u) = r"
    unfolding take_map drop_map length_map by simp_all
qed

lemma close_at_take:
  assumes "close_at s b"
  shows "take 4 (drop b s) = NL # FENCE"
proof -
  have "length (NL # FENCE) = 4" by simp
  from assms [unfolded close_at_def lit_at_def this]
  show ?thesis by (simp only: canon_NL_FENCE)
qed

lemma open_at_take:
  assumes "open_at w s i"
  shows "\<exists>tag. take (length w + 4) (drop i s) = FENCE @ tag @ [NL] \<and> map canon tag = map canon w"
proof -
  have l: "length (FENCE @ w @ [NL]) = length w + 4" by simp
  from assms [unfolded open_at_def lit_at_def l]
  have "map canon (take (length w + 4) (drop i s)) = map canon FENCE @ (map canon w @ map canon [NL])"
    by simp
  from map_canon_append [OF this]
  obtain u1 v where p1: "take (length w + 4) (drop i s) = u1 @ v" "map canon u1 = map canon FENCE"
    "map canon v = map canon w @ map canon [NL]"
    by blast
  from map_canon_append [OF p1(3)]
  obtain u2 u3 where p2: "v = u2 @ u3" "map canon u2 = map canon w"
    "map canon u3 = map canon [NL]"
    by blast
  from p1(2) have u1: "u1 = FENCE" by (simp only: canon_FENCE)
  from p2(3) have u3: "u3 = [NL]" by (cases u3) auto
  show ?thesis
    using p1(1) p2(2) unfolding p2(1) u1 u3 by blast
qed

lemma take_drop_chain: "take n (drop k s) @ drop (k + n) s = drop k s"
  by (metis add.commute append_take_drop_id drop_drop)

lemma split_text:
  assumes "i \<le> a" "a \<le> b"
  shows "s = take i s @ take (a - i) (drop i s) @ take (b - a) (drop a s)
               @ take 4 (drop b s) @ drop (b + 4) s"
proof -
  have 1: "take 4 (drop b s) @ drop (b + 4) s = drop b s"
    by (rule take_drop_chain)
  have 2: "take (b - a) (drop a s) @ drop b s = drop a s"
    using take_drop_chain [of "b - a" a s] assms(2) by simp
  have 3: "take (a - i) (drop i s) @ drop a s = drop i s"
    using take_drop_chain [of "a - i" i s] assms(1) by simp
  show ?thesis
    by (simp only: 1 2 3 append_take_drop_id)
qed

lemma first_some_SomeD:
  "first_some f xs = Some r \<Longrightarrow> \<exists>x \<in> set xs. f x = Some r"
  by (induction xs) (auto split: option.splits)

lemma first_some_None_iff:
  "first_some f xs = None \<longleftrightarrow> (\<forall>x \<in> set xs. f x = None)"
  by (induction xs) (auto split: option.splits)

lemma find_Some_in: "List.find P xs = Some x \<Longrightarrow> x \<in> set xs \<and> P x"
  by (induction xs) (auto split: if_splits)

lemma block_from_SomeD:
  assumes "block_from s a = Some (a', b)"
  shows "a' = a \<and> a \<le> b \<and> b \<le> length s \<and> close_at s b"
proof -
  from assms obtain b' where f: "List.find (close_at s) [a ..< Suc (length s)] = Some b'"
    and e: "(a', b) = (a, b')"
    by (auto simp: block_from_def split: option.splits)
  from find_Some_in [OF f] have "a \<le> b'" "b' \<le> length s" "close_at s b'"
    by simp_all
  with e show ?thesis by simp
qed

text \<open>A block that rule 2 finds is the content between an opening fence with one of the
  tags and a closing fence; and when the text holds such a block, the pattern matches.\<close>

lemma block_content_sound:
  assumes "block_content tags text = Some c"
  shows "\<exists>pre tag post w. text = pre @ FENCE @ tag @ [NL] @ c @ [NL] @ FENCE @ post
           \<and> w \<in> set tags \<and> map canon tag = map canon w"
proof -
  from assms obtain a b where fb: "first_block tags text = Some (a, b)" and c: "c = slice text (a, b)"
    by (auto simp: block_content_def)
  from first_some_SomeD [OF fb [unfolded first_block_def]]
  obtain i where "block_at tags text i = Some (a, b)" by blast
  from first_some_SomeD [OF this [unfolded block_at_def]]
  obtain w where w: "w \<in> set tags"
    and w2: "(if open_at w text i then block_from text (i + length w + 4) else None) = Some (a, b)"
    by blast
  from w2 have op: "open_at w text i" and bf: "block_from text (i + length w + 4) = Some (a, b)"
    by (simp_all split: if_splits)
  from block_from_SomeD [OF bf]
  have ab: "a = i + length w + 4" "a \<le> b" "close_at text b" by simp_all
  from open_at_take [OF op] obtain tag where
    t: "take (length w + 4) (drop i text) = FENCE @ tag @ [NL]" "map canon tag = map canon w"
    by blast
  have ia: "i \<le> a" "a - i = length w + 4" using ab(1) by simp_all
  have "text = take i text @ (FENCE @ tag @ [NL]) @ c @ (NL # FENCE) @ drop (b + 4) text"
    using split_text [OF ia(1) ab(2), of "text"]
    unfolding ia(2) t(1) close_at_take [OF ab(3)] c slice_def fst_conv snd_conv .
  then have "text = take i text @ FENCE @ tag @ [NL] @ c @ [NL] @ FENCE @ drop (b + 4) text"
    by simp
  with w t(2) show ?thesis by blast
qed

lemma block_content_complete:
  assumes "text = pre @ FENCE @ tag @ [NL] @ c @ [NL] @ FENCE @ post"
    and "w \<in> set tags" "map canon tag = map canon w"
  shows "block_content tags text \<noteq> None"
proof -
  from assms(3) have "length (map canon tag) = length (map canon w)" by (rule arg_cong)
  then have lw: "length tag = length w" by simp
  have op: "open_at w text (length pre)"
    by (simp add: open_at_def lit_at_def assms(1) assms(3) lw)
  have "drop (length pre + length w + 4 + length c) text = NL # FENCE @ post"
    by (simp add: assms(1) lw)
  then have cl: "close_at text (length pre + length w + 4 + length c)"
    by (simp add: close_at_def lit_at_def)
  have "length pre + length w + 4 + length c \<in> set [length pre + length w + 4 ..< Suc (length text)]"
    by (simp add: assms(1) lw)
  with cl have "List.find (close_at text) [length pre + length w + 4 ..< Suc (length text)] \<noteq> None"
    unfolding find_None_iff by blast
  then have bf: "block_from text (length pre + length w + 4) \<noteq> None"
    by (simp add: block_from_def split: option.splits)
  have ba: "block_at tags text (length pre) \<noteq> None"
  proof
    assume "block_at tags text (length pre) = None"
    then have "\<forall>x \<in> set tags. (if open_at x text (length pre)
        then block_from text (length pre + length x + 4) else None) = None"
      by (simp only: block_at_def first_some_None_iff)
    with assms(2) op bf show False by auto
  qed
  have m: "length pre \<in> set [0 ..< Suc (length text)]"
    by (simp add: assms(1))
  have "first_block tags text \<noteq> None"
  proof
    assume "first_block tags text = None"
    then have "\<forall>x \<in> set [0 ..< Suc (length text)]. block_at tags text x = None"
      by (simp only: first_block_def first_some_None_iff)
    with m ba show False by auto
  qed
  then show ?thesis by (simp add: block_content_def)
qed



lemmas block_eval = codeBlockSpec_def fence_table_def block_info_def block_content_def
  first_block_def block_at_def open_at_def block_from_def close_at_def slice_def lit_at_def
  FENCE_def js_def NL_def BACKTICK_def canon_def trim_def is_space_def is_line_terminator_def
  upt_rec




text \<open>
  Claim C4, amended.  Rule 2 tries the tags in the order csv, json, xml, txt/text, sql,
  python, javascript/js, letters compared without case.  For a tag it takes the leftmost
  opening fence with that tag and a line feed that has a closing fence (a line feed and
  three backticks) behind it, and as content the code units up to the nearest closing
  fence.  The first tag in that order whose block has a non-empty content wins; a block
  with an empty content is passed over and the next tag is tried.  The artifact holds that
  content trimmed, without the fences, under the name \<open>analysis_result.<extension>\<close> with
  the extension and MIME type of the table.  A content that rule 2 finds stands in the text
  between an opening and a closing fence, and a text that holds such a block makes the
  pattern match.
\<close>

theorem fenced_rule:
  "codeBlockRule patterns text = codeBlockSpec text
   \<and> (\<forall>tags c. block_content tags text = Some c \<longrightarrow>
        (\<exists>pre tag post w. text = pre @ FENCE @ tag @ [NL] @ c @ [NL] @ FENCE @ post
           \<and> w \<in> set tags \<and> map canon tag = map canon w))
   \<and> (\<forall>tags pre tag c post w.
        text = pre @ FENCE @ tag @ [NL] @ c @ [NL] @ FENCE @ post
          \<and> w \<in> set tags \<and> map canon tag = map canon w
        \<longrightarrow> block_content tags text \<noteq> None)"
  using codeBlockRule_spec block_content_sound block_content_complete by blast

theorem fenced_rule_witness:
  \<open>codeBlockRule patterns ex_json_block
     = Some \<lparr>hasFile = True, content = js ''{"a":1}'', filename = js ''analysis_result.json'',
             extension = js ''json'', mimeType = js ''application/json'', ftype = js ''json''\<rparr>
   \<and> block_content [js ''json''] ex_json_block = Some (js ''{"a":1}'')\<close>
proof -
  have \<open>codeBlockSpec ex_json_block
     = Some \<lparr>hasFile = True, content = js ''{"a":1}'', filename = js ''analysis_result.json'',
             extension = js ''json'', mimeType = js ''application/json'', ftype = js ''json''\<rparr>\<close>
    by (simp add: ex_json_block_def block_eval)
  moreover have \<open>block_content [js ''json''] ex_json_block = Some (js ''{"a":1}'')\<close>
    by (simp add: ex_json_block_def block_eval)
  ultimately show ?thesis
    using fenced_rule [of ex_json_block] by simp
qed

theorem fenced_rule_counterexample:
  "ex_empty_csv_block = [] @ FENCE @ js ''csv'' @ [NL] @ [] @ [NL] @ FENCE @ []
   \<and> block_content [js ''csv''] ex_empty_csv_block = Some []
   \<and> codeBlockRule patterns ex_empty_csv_block = None
   \<and> block_content [js ''csv''] ex_two_blocks = Some []
   \<and> codeBlockRule patterns ex_two_blocks
       = Some \<lparr>hasFile = True, content = js ''{}'', filename = js ''analysis_result.json'',
               extension = js ''json'', mimeType = js ''application/json'', ftype = js ''json''\<rparr>"
proof -
  have 1: "block_content [js ''csv''] ex_empty_csv_block = Some []"
    by (simp add: ex_empty_csv_block_def block_eval)
  have 2: "codeBlockSpec ex_empty_csv_block = None"
    by (simp add: ex_empty_csv_block_def block_eval)
  have 3: "block_content [js ''csv''] ex_two_blocks = Some []"
    by (simp add: ex_two_blocks_def block_eval)
  have 4: "codeBlockSpec ex_two_blocks
       = Some \<lparr>hasFile = True, content = js ''{}'', filename = js ''analysis_result.json'',
               extension = js ''json'', mimeType = js ''application/json'', ftype = js ''json''\<rparr>"
    by (simp add: ex_two_blocks_def block_eval)
  show ?thesis
    using 1 2 3 4 by (simp add: codeBlockRule_spec) (simp add: ex_empty_csv_block_def)
qed



subsection \<open>The matcher finds a match exactly when the pattern spans one\<close>

lemma star_bounds:
  assumes "(R :: nat \<Rightarrow> nat \<Rightarrow> bool)\<^sup>*\<^sup>* i j"
    and "\<And>x y. R x y \<Longrightarrow> x \<le> y \<and> (x < y \<longrightarrow> y \<le> n)"
  shows "i \<le> j \<and> (i < j \<longrightarrow> j \<le> n)"
  using assms(1)
proof (induction rule: rtranclp_induct)
  case base
  then show ?case by simp
next
  case (step y z)
  from assms(2) [OF step.hyps(2)] step.IH show ?case by auto
qed

lemma spans_bounds:
  "spans r s i j \<Longrightarrow> i \<le> j \<and> (i < j \<longrightarrow> j \<le> length s)"
proof (induction r arbitrary: i j)
  case (Seq a b)
  from Seq.prems obtain m where "spans a s i m" "spans b s m j" by auto
  with Seq.IH(1) [of i m] Seq.IH(2) [of m j] show ?case by auto
next
  case (Star a)
  from Star.prems have "(spans a s)\<^sup>*\<^sup>* i j" by simp
  then show ?case by (rule star_bounds) (rule Star.IH)
next
  case (Plus a)
  from Plus.prems obtain m where m: "spans a s i m" "(spans a s)\<^sup>*\<^sup>* m j" by auto
  from m(2) have "m \<le> j \<and> (m < j \<longrightarrow> j \<le> length s)"
    by (rule star_bounds) (rule Plus.IH)
  with Plus.IH [OF m(1)] show ?case by auto
next
  case (LazyStar a)
  from LazyStar.prems have "(spans a s)\<^sup>*\<^sup>* i j" by simp
  then show ?case by (rule star_bounds) (rule LazyStar.IH)
qed auto

lemma star_first_step:
  assumes "(spans a s)\<^sup>*\<^sup>* i j"
  shows "j = i \<or> (\<exists>m. i < m \<and> spans a s i m \<and> (spans a s)\<^sup>*\<^sup>* m j)"
  using assms
proof (induction rule: converse_rtranclp_induct)
  case base
  then show ?case by simp
next
  case (step x y)
  from spans_bounds [OF step.hyps(1)] have "x \<le> y" by simp
  then consider "x < y" | "x = y" by linarith
  then show ?case
  proof cases
    case 1
    with step.hyps show ?thesis by blast
  next
    case 2
    with step.IH show ?thesis by blast
  qed
qed

lemma star_at_end:
  assumes "(spans a s)\<^sup>*\<^sup>* i j" "length s \<le> i"
  shows "j = i"
proof -
  from star_first_step [OF assms(1)] show ?thesis
  proof
    assume "\<exists>m. i < m \<and> spans a s i m \<and> (spans a s)\<^sup>*\<^sup>* m j"
    then obtain m where "i < m" "spans a s i m" by blast
    with spans_bounds [of a s i m] assms(2) show ?thesis by simp
  qed simp
qed


lemma found_simps [simp]: "found None = False" "found (Some r) = True"
  by (simp_all add: found_def)

lemma found_if [simp]: "found (if b then x else None) = (b \<and> found x)"
  by simp

lemma found_case [simp]:
  "found (case x of Some r \<Rightarrow> Some r | None \<Rightarrow> y) = (found x \<or> found y)"
  by (cases x) simp_all

lemma greedy_spans:
  assumes body: "\<And>st k. found (rx a s st k) = (\<exists>j. spans a s (fst st) j \<and> found (k (j, snd st)))"
    and "length s - fst st \<le> n"
  shows "found (greedy n (rx a s) st k)
         = (\<exists>j. (spans a s)\<^sup>*\<^sup>* (fst st) j \<and> found (k (j, snd st)))"
  using assms(2)
proof (induction n arbitrary: st)
  case 0
  then have e: "length s \<le> fst st" by simp
  have "(\<exists>j. (spans a s)\<^sup>*\<^sup>* (fst st) j \<and> found (k (j, snd st))) = found (k (fst st, snd st))"
    using star_at_end [OF _ e] by blast
  then show ?case by simp
next
  case (Suc n)
  let ?K = "\<lambda>st'. if fst st < fst st' then greedy n (rx a s) st' k else None"
  have step: "found (rx a s st ?K)
      = (\<exists>m. fst st < m \<and> spans a s (fst st) m
             \<and> (\<exists>j. (spans a s)\<^sup>*\<^sup>* m j \<and> found (k (j, snd st))))"
  proof -
    have K: "found (?K (m, snd st))
        = (fst st < m \<and> (\<exists>j. (spans a s)\<^sup>*\<^sup>* m j \<and> found (k (j, snd st))))" for m
    proof (cases "fst st < m")
      case True
      with Suc.prems have "length s - fst (m, snd st) \<le> n" by simp
      from Suc.IH [OF this] True show ?thesis by simp
    next
      case False
      then show ?thesis by simp
    qed
    have "found (rx a s st ?K) = (\<exists>m. spans a s (fst st) m \<and> found (?K (m, snd st)))"
      by (rule body)
    also have "\<dots> = (\<exists>m. fst st < m \<and> spans a s (fst st) m
             \<and> (\<exists>j. (spans a s)\<^sup>*\<^sup>* m j \<and> found (k (j, snd st))))"
      unfolding K by blast
    finally show ?thesis .
  qed
  have "found (greedy (Suc n) (rx a s) st k) = (found (rx a s st ?K) \<or> found (k st))"
    by (simp only: greedy.simps found_case)
  also have "\<dots> = (\<exists>j. (spans a s)\<^sup>*\<^sup>* (fst st) j \<and> found (k (j, snd st)))"
    unfolding step
  proof
    assume "(\<exists>m>fst st. spans a s (fst st) m \<and> (\<exists>j. (spans a s)\<^sup>*\<^sup>* m j \<and> found (k (j, snd st))))
            \<or> found (k st)"
    then show "\<exists>j. (spans a s)\<^sup>*\<^sup>* (fst st) j \<and> found (k (j, snd st))"
    proof
      assume "\<exists>m>fst st. spans a s (fst st) m \<and> (\<exists>j. (spans a s)\<^sup>*\<^sup>* m j \<and> found (k (j, snd st)))"
      then obtain m j where "spans a s (fst st) m" "(spans a s)\<^sup>*\<^sup>* m j" "found (k (j, snd st))"
        by blast
      then show ?thesis by (meson converse_rtranclp_into_rtranclp)
    next
      assume "found (k st)"
      then have "found (k (fst st, snd st))" by simp
      then show ?thesis by blast
    qed
  next
    assume "\<exists>j. (spans a s)\<^sup>*\<^sup>* (fst st) j \<and> found (k (j, snd st))"
    then obtain j where j: "(spans a s)\<^sup>*\<^sup>* (fst st) j" "found (k (j, snd st))" by blast
    from star_first_step [OF j(1)] j(2)
    show "(\<exists>m>fst st. spans a s (fst st) m \<and> (\<exists>j. (spans a s)\<^sup>*\<^sup>* m j \<and> found (k (j, snd st))))
            \<or> found (k st)"
      by auto
  qed
  finally show ?case .
qed


lemma lazy_spans:
  assumes body: "\<And>st k. found (rx a s st k) = (\<exists>j. spans a s (fst st) j \<and> found (k (j, snd st)))"
    and "length s - fst st \<le> n"
  shows "found (lazy n (rx a s) st k)
         = (\<exists>j. (spans a s)\<^sup>*\<^sup>* (fst st) j \<and> found (k (j, snd st)))"
  using assms(2)
proof (induction n arbitrary: st)
  case 0
  then have e: "length s \<le> fst st" by simp
  have "(\<exists>j. (spans a s)\<^sup>*\<^sup>* (fst st) j \<and> found (k (j, snd st))) = found (k (fst st, snd st))"
    using star_at_end [OF _ e] by blast
  then show ?case by simp
next
  case (Suc n)
  let ?K = "\<lambda>st'. if fst st < fst st' then lazy n (rx a s) st' k else None"
  have step: "found (rx a s st ?K)
      = (\<exists>m. fst st < m \<and> spans a s (fst st) m
             \<and> (\<exists>j. (spans a s)\<^sup>*\<^sup>* m j \<and> found (k (j, snd st))))"
  proof -
    have K: "found (?K (m, snd st))
        = (fst st < m \<and> (\<exists>j. (spans a s)\<^sup>*\<^sup>* m j \<and> found (k (j, snd st))))" for m
    proof (cases "fst st < m")
      case True
      with Suc.prems have "length s - fst (m, snd st) \<le> n" by simp
      from Suc.IH [OF this] True show ?thesis by simp
    next
      case False
      then show ?thesis by simp
    qed
    have "found (rx a s st ?K) = (\<exists>m. spans a s (fst st) m \<and> found (?K (m, snd st)))"
      by (rule body)
    also have "\<dots> = (\<exists>m. fst st < m \<and> spans a s (fst st) m
             \<and> (\<exists>j. (spans a s)\<^sup>*\<^sup>* m j \<and> found (k (j, snd st))))"
      unfolding K by blast
    finally show ?thesis .
  qed
  have "found (lazy (Suc n) (rx a s) st k) = (found (k st) \<or> found (rx a s st ?K))"
    by (simp only: lazy.simps found_case)
  also have "\<dots> = (\<exists>j. (spans a s)\<^sup>*\<^sup>* (fst st) j \<and> found (k (j, snd st)))"
    unfolding step
  proof
    assume "found (k st)
       \<or> (\<exists>m>fst st. spans a s (fst st) m \<and> (\<exists>j. (spans a s)\<^sup>*\<^sup>* m j \<and> found (k (j, snd st))))"
    then show "\<exists>j. (spans a s)\<^sup>*\<^sup>* (fst st) j \<and> found (k (j, snd st))"
    proof
      assume "\<exists>m>fst st. spans a s (fst st) m \<and> (\<exists>j. (spans a s)\<^sup>*\<^sup>* m j \<and> found (k (j, snd st)))"
      then obtain m j where "spans a s (fst st) m" "(spans a s)\<^sup>*\<^sup>* m j" "found (k (j, snd st))"
        by blast
      then show ?thesis by (meson converse_rtranclp_into_rtranclp)
    next
      assume "found (k st)"
      then have "found (k (fst st, snd st))" by simp
      then show ?thesis by blast
    qed
  next
    assume "\<exists>j. (spans a s)\<^sup>*\<^sup>* (fst st) j \<and> found (k (j, snd st))"
    then obtain j where j: "(spans a s)\<^sup>*\<^sup>* (fst st) j" "found (k (j, snd st))" by blast
    from star_first_step [OF j(1)] j(2)
    show "found (k st)
       \<or> (\<exists>m>fst st. spans a s (fst st) m \<and> (\<exists>j. (spans a s)\<^sup>*\<^sup>* m j \<and> found (k (j, snd st))))"
      by auto
  qed
  finally show ?case .
qed

text \<open>For a pattern without a group, whose matcher leaves the captures as they are.\<close>

theorem rx_spans:
  assumes "no_group r"
  shows "found (rx r s st k) = (\<exists>j. spans r s (fst st) j \<and> found (k (j, snd st)))"
  using assms
proof (induction r arbitrary: st k)
  case Eps
  show ?case by simp
next
  case (Cls P)
  show ?case by auto
next
  case (Seq a b)
  then have a: "\<And>st k. found (rx a s st k) = (\<exists>j. spans a s (fst st) j \<and> found (k (j, snd st)))"
    and b: "\<And>st k. found (rx b s st k) = (\<exists>j. spans b s (fst st) j \<and> found (k (j, snd st)))"
    by simp_all
  show ?case
    by (simp only: rx.simps a b fst_conv snd_conv spans.simps) blast
next
  case (Alt a b)
  then have a: "\<And>st k. found (rx a s st k) = (\<exists>j. spans a s (fst st) j \<and> found (k (j, snd st)))"
    and b: "\<And>st k. found (rx b s st k) = (\<exists>j. spans b s (fst st) j \<and> found (k (j, snd st)))"
    by simp_all
  show ?case
    by (simp only: rx.simps found_case a b spans.simps) blast
next
  case (Star a)
  then have a: "\<And>st k. found (rx a s st k) = (\<exists>j. spans a s (fst st) j \<and> found (k (j, snd st)))"
    by simp
  show ?case
    unfolding rx.simps spans.simps by (rule greedy_spans [OF a]) simp
next
  case (Plus a)
  then have a: "\<And>st k. found (rx a s st k) = (\<exists>j. spans a s (fst st) j \<and> found (k (j, snd st)))"
    by simp
  have g: "found (greedy (length s - m) (rx a s) (m, c) k)
         = (\<exists>j. (spans a s)\<^sup>*\<^sup>* m j \<and> found (k (j, c)))" for m c
    using greedy_spans [OF a, of "(m, c)" "length s - m" k] by simp
  show ?case
    by (simp only: rx.simps a g fst_conv snd_conv spans.simps) blast
next
  case (Opt a)
  then have a: "\<And>st k. found (rx a s st k) = (\<exists>j. spans a s (fst st) j \<and> found (k (j, snd st)))"
    by simp
  obtain i c where st: "st = (i, c)" by (cases st)
  have "found (rx (Opt a) s (i, c) k)
      = ((\<exists>j. spans a s i j \<and> i < j \<and> found (k (j, c))) \<or> found (k (i, c)))"
    by (simp only: rx.simps found_case a found_if fst_conv snd_conv)
  also have "\<dots> = (\<exists>j. (spans a s i j \<or> j = i) \<and> found (k (j, c)))"
  proof -
    have "i < j \<or> j = i" if "spans a s i j" for j
      using spans_bounds [OF that] by auto
    then show ?thesis by blast
  qed
  finally show ?case by (simp add: st)
next
  case (LazyStar a)
  then have a: "\<And>st k. found (rx a s st k) = (\<exists>j. spans a s (fst st) j \<and> found (k (j, snd st)))"
    by simp
  show ?case
    unfolding rx.simps spans.simps by (rule lazy_spans [OF a]) simp
next
  case (Group a)
  then show ?case by simp
next
  case Bol
  show ?case by auto
next
  case Eol
  show ?case by auto
qed



subsection \<open>The CSV-like pattern\<close>

lemma first_some_found:
  "found (first_some f xs) = (\<exists>x \<in> set xs. found (f x))"
  by (induction xs) simp_all

lemma test_spans:
  assumes "no_group r"
  shows "test r s = (\<exists>i \<le> length s. \<exists>j. spans r s i j)"
proof -
  have "test r s = found (first_some (match_at r s) [0 ..< Suc (length s)])"
    by (simp add: test_def exec_def search_from_first_some found_def)
  also have "\<dots> = (\<exists>i \<in> set [0 ..< Suc (length s)]. found (rx r s (i, None) Some))"
    by (simp only: first_some_found match_at_def)
  also have "\<dots> = (\<exists>i \<le> length s. \<exists>j. spans r s i j)"
    by (auto simp: rx_spans [OF assms] less_Suc_eq_le)
  finally show ?thesis .
qed


lemma star_cls: "(spans (Cls P) s)\<^sup>*\<^sup>* i j = run P s i j"
proof
  assume "(spans (Cls P) s)\<^sup>*\<^sup>* i j"
  then show "run P s i j"
  proof (induction rule: rtranclp_induct)
    case base
    show ?case by (auto simp: run_def)
  next
    case (step y z)
    then show ?case by (auto simp: run_def less_Suc_eq)
  qed
next
  assume r: "run P s i j"
  then have "i \<le> j" by (simp add: run_def)
  then show "(spans (Cls P) s)\<^sup>*\<^sup>* i j"
    using r
  proof (induction rule: dec_induct)
    case base
    show ?case by simp
  next
    case (step n)
    from step.prems step.hyps have "run P s i n" "spans (Cls P) s n (Suc n)"
      by (auto simp: run_def)
    with step.IH show ?case by (meson rtranclp.rtrancl_into_rtrancl)
  qed
qed

lemma plus_cls: "spans (Plus (Cls P)) s i j = (run P s i j \<and> i < j)"
proof -
  have "spans (Plus (Cls P)) s i j
      = (\<exists>m. spans (Cls P) s i m \<and> (spans (Cls P) s)\<^sup>*\<^sup>* m j)"
    by (simp only: spans.simps)
  also have "\<dots> = (i < length s \<and> P (s ! i) \<and> run P s (Suc i) j)"
    unfolding star_cls by auto
  also have "\<dots> = (run P s i j \<and> i < j)"
  proof -
    have "(\<forall>x. Suc i \<le> x \<and> x < j \<longrightarrow> P (s ! x)) \<and> P (s ! i)
        \<longleftrightarrow> (\<forall>x. i \<le> x \<and> x < j \<longrightarrow> P (s ! x))" if "i < j"
      using that by (metis Suc_leI le_neq_implies_less not_less_eq_eq order_refl le_SucI Suc_le_lessD)
    then show ?thesis
      unfolding run_def by (cases "i < j") auto
  qed
  finally show ?thesis .
qed





lemma row_at_row: "row_at s p j = row s p j"
  by (auto simp: row_at_def row_def list_all_iff)



lemma not_comma_nl_ncn: "not_comma_nl = Cls ncn"
  unfolding not_comma_nl_def by (rule arg_cong [where f = Cls]) (simp add: ncn_def fun_eq_iff)

lemma spans_field: "spans (Plus not_comma_nl) s = field s"
  by (intro ext) (simp only: not_comma_nl_ncn plus_cls field_def)

lemma spans_next_field: "spans (Seq (Chr COMMA) (Plus not_comma_nl)) s = next_field s"
proof (intro ext)
  fix x y
  have "spans (Seq (Chr COMMA) (Plus not_comma_nl)) s x y
      = (\<exists>m. spans (Chr COMMA) s x m \<and> spans (Plus not_comma_nl) s m y)"
    by (simp only: spans.simps)
  also have "\<dots> = next_field s x y"
    unfolding spans_field by (auto simp: Chr_def next_field_def)
  finally show "spans (Seq (Chr COMMA) (Plus not_comma_nl)) s x y = next_field s x y" .
qed

lemma spans_header: "spans csv_header s i j = (\<exists>m. field s i m \<and> (next_field s)\<^sup>*\<^sup>* m j)"
proof -
  have "spans csv_header s i j
      = (\<exists>m. spans (Plus not_comma_nl) s i m
            \<and> (spans (Seq (Chr COMMA) (Plus not_comma_nl)) s)\<^sup>*\<^sup>* m j)"
    unfolding csv_header_def by (simp only: spans.simps)
  then show ?thesis by (simp only: spans_field spans_next_field)
qed

lemma field_row: "field s i j \<Longrightarrow> row s i j"
  unfolding field_def run_def row_def ncn_def
  by (auto simp: less_Suc_eq_le)

lemma field_extend: "field s i j \<Longrightarrow> j < length s \<Longrightarrow> ncn (s ! j) \<Longrightarrow> field s i (Suc j)"
  unfolding field_def run_def by (auto simp: less_Suc_eq)

lemma field_single: "i < length s \<Longrightarrow> ncn (s ! i) \<Longrightarrow> field s i (Suc i)"
  unfolding field_def run_def by (auto simp: less_Suc_eq_le)

lemma row_next_field:
  assumes "row s i m" "next_field s m j"
  shows "row s i j"
proof -
  from assms(2) have m: "m < length s" "s ! m = COMMA" "Suc m < j" "j \<le> length s"
    and f: "\<forall>x. Suc m \<le> x \<and> x < j \<longrightarrow> s ! x \<noteq> COMMA \<and> s ! x \<noteq> NL"
    unfolding next_field_def field_def run_def ncn_def by auto
  from assms(1) have r: "i < m" "\<forall>x. i \<le> x \<and> x < m \<longrightarrow> s ! x \<noteq> NL" "s ! i \<noteq> COMMA"
    "s ! (m - 1) \<noteq> COMMA" "\<forall>x. i \<le> x \<and> Suc x < m \<longrightarrow> s ! x \<noteq> COMMA \<or> s ! Suc x \<noteq> COMMA"
    unfolding row_def by auto
  have c: "COMMA \<noteq> NL" by (simp add: COMMA_def NL_def)
  have 1: "s ! x \<noteq> NL" if "i \<le> x" "x < j" for x
  proof -
    consider "x < m" | "x = m" | "Suc m \<le> x" by linarith
    then show ?thesis using that r(2) m(2) f c by cases auto
  qed
  have 2: "s ! (j - 1) \<noteq> COMMA"
    using f m(3) by (auto dest!: spec [of _ "j - 1"])
  have 3: "s ! x \<noteq> COMMA \<or> s ! Suc x \<noteq> COMMA" if "i \<le> x" "Suc x < j" for x
  proof -
    consider "Suc x < m" | "Suc x = m" | "x = m" | "Suc m \<le> x" by linarith
    then show ?thesis
    proof cases
      case 1 with r(5) that show ?thesis by blast
    next
      case 2 with r(4) show ?thesis by auto
    next
      case 3 with f that m(3) show ?thesis by auto
    next
      case 4 with f that show ?thesis by auto
    qed
  qed
  show ?thesis
    unfolding row_def using r(1,3) m(3,4) 1 2 3 by auto
qed

lemma header_row:
  assumes "spans csv_header s i j"
  shows "row s i j"
proof -
  from assms obtain m where m: "field s i m" "(next_field s)\<^sup>*\<^sup>* m j"
    unfolding spans_header by blast
  from m(2) show ?thesis
  proof (induction rule: rtranclp_induct)
    case base
    from m(1) show ?case by (rule field_row)
  next
    case (step y z)
    from step.IH step.hyps(2) show ?case by (rule row_next_field)
  qed
qed


lemma header_extend:
  assumes "spans csv_header s i j" "j < length s" "ncn (s ! j)"
  shows "spans csv_header s i (Suc j)"
proof -
  from assms(1) obtain m where m: "field s i m" "(next_field s)\<^sup>*\<^sup>* m j"
    unfolding spans_header by blast
  from m(2) show ?thesis
  proof (cases rule: rtranclp.cases)
    case rtrancl_refl
    with m(1) assms(2,3) have "field s i (Suc j)" by (simp add: field_extend)
    then show ?thesis unfolding spans_header by blast
  next
    case (rtrancl_into_rtrancl y)
    from rtrancl_into_rtrancl(2) assms(2,3) have "next_field s y (Suc j)"
      unfolding next_field_def by (simp add: field_extend)
    with rtrancl_into_rtrancl(1) have "(next_field s)\<^sup>*\<^sup>* m (Suc j)"
      by (rule rtranclp.rtrancl_into_rtrancl)
    with m(1) show ?thesis unfolding spans_header by blast
  qed
qed

lemma header_comma:
  assumes "spans csv_header s i j" "Suc j < length s" "s ! j = COMMA" "ncn (s ! Suc j)"
  shows "spans csv_header s i (Suc (Suc j))"
proof -
  from assms(1) obtain m where m: "field s i m" "(next_field s)\<^sup>*\<^sup>* m j"
    unfolding spans_header by blast
  from assms(2-4) have "next_field s j (Suc (Suc j))"
    unfolding next_field_def by (simp add: field_single)
  with m(2) have "(next_field s)\<^sup>*\<^sup>* m (Suc (Suc j))"
    by (rule rtranclp.rtrancl_into_rtrancl)
  with m(1) show ?thesis unfolding spans_header by blast
qed

lemma row_header:
  assumes "row s i j"
  shows "spans csv_header s i j"
  using assms
proof (induction j rule: less_induct)
  case (less j)
  from less.prems have r: "i < j" "j \<le> length s" "\<forall>x. i \<le> x \<and> x < j \<longrightarrow> s ! x \<noteq> NL"
    "s ! i \<noteq> COMMA" "s ! (j - 1) \<noteq> COMMA"
    "\<forall>x. i \<le> x \<and> Suc x < j \<longrightarrow> s ! x \<noteq> COMMA \<or> s ! Suc x \<noteq> COMMA"
    unfolding row_def by auto
  from r(1) obtain j1 where j1: "j = Suc j1" "i \<le> j1" by (cases j) auto
  from r(2,3,5) j1 have last: "j1 < length s" "ncn (s ! j1)"
    by (auto simp: ncn_def)
  show ?case
  proof (cases "j1 = i")
    case True
    with last have "field s i (Suc i)" by (simp add: field_single)
    then show ?thesis unfolding spans_header j1(1) True by blast
  next
    case False
    with j1(2) obtain j2 where j2: "j1 = Suc j2" "i \<le> j2" by (cases j1) auto
    show ?thesis
    proof (cases "s ! j2 = COMMA")
      case False
      have "row s i j1"
        unfolding row_def using r j1 j2 False by auto
      from less.IH [OF _ this] j1(1) have "spans csv_header s i j1" by simp
      from header_extend [OF this last] show ?thesis by (simp add: j1(1))
    next
      case True
      with r(4) j2(2) have ne: "i < j2" by (cases "i = j2") auto
      then obtain j3 where j3: "j2 = Suc j3" "i \<le> j3" by (cases j2) auto
      from r(6) j3 j2 j1 True have "s ! j3 \<noteq> COMMA"
        by (auto dest!: spec [of _ j3])
      then have "row s i j2"
        unfolding row_def using r j1 j2 j3 ne by auto
      from less.IH [OF _ this] j1(1) j2(1) have h: "spans csv_header s i j2" by simp
      from last j2(1) have "Suc j2 < length s" "ncn (s ! Suc j2)" by simp_all
      from header_comma [OF h this(1) True this(2)] show ?thesis
        by (simp add: j1(1) j2(1))
    qed
  qed
qed

lemma spans_header_row: "spans csv_header s i j = row_at s i j"
  unfolding row_at_row using header_row row_header by blast




lemma csv_rest_body: "csv_rest = Plus rest_body"
  by (simp add: csv_rest_def rest_body_def)

lemma rest_body_empty: "spans rest_body s x x"
  unfolding rest_body_def by (simp only: spans.simps) blast

lemma rest_body_one:
  assumes "x < length s"
  shows "spans rest_body s x (Suc x)"
proof -
  consider "ncn (s ! x)" | "s ! x = COMMA" | "s ! x = NL"
    by (auto simp: ncn_def)
  then show ?thesis
  proof cases
    case 1
    with assms have "spans not_comma_nl s x (Suc x)"
      by (simp add: not_comma_nl_ncn)
    then have "(spans not_comma_nl s)\<^sup>*\<^sup>* x (Suc x)" by (rule r_into_rtranclp)
    then show ?thesis
      unfolding rest_body_def by (simp only: spans.simps) blast
  next
    case 2
    with assms have "spans (Seq (Chr COMMA) (Star not_comma_nl)) s x (Suc x)"
      by (simp add: Chr_def)
    then have "(spans (Seq (Chr COMMA) (Star not_comma_nl)) s)\<^sup>*\<^sup>* x (Suc x)"
      by (rule r_into_rtranclp)
    then show ?thesis
      unfolding rest_body_def by (simp only: spans.simps(3,5,7)) blast
  next
    case 3
    with assms have "spans (Chr NL) s x (Suc x)" by (simp add: Chr_def)
    then show ?thesis
      unfolding rest_body_def by (simp only: spans.simps(3,5,7)) blast
  qed
qed

lemma rest_to_end:
  assumes "x \<le> length s"
  shows "spans csv_rest s x (length s)"
proof -
  from assms have "(spans rest_body s)\<^sup>*\<^sup>* x (length s)"
  proof (induction rule: dec_induct)
    case base
    show ?case by simp
  next
    case (step n)
    from step.hyps(2) have "spans rest_body s n (Suc n)" by (rule rest_body_one)
    with step.IH show ?case by (rule rtranclp.rtrancl_into_rtrancl)
  qed
  with rest_body_empty [of s x] show ?thesis
    unfolding csv_rest_body by (simp only: spans.simps) blast
qed

lemma no_group_csv: "no_group csvLikePattern"
  by (simp add: csvLikePattern_def csv_header_def csv_rest_def not_comma_nl_def Chr_def)

lemma spans_csvLikePattern:
  "(\<exists>j. spans csvLikePattern s i j)
     = (line_start s i \<and> (\<exists>m. row_at s i m \<and> m < length s \<and> s ! m = NL))"
proof
  assume "\<exists>j. spans csvLikePattern s i j"
  then obtain j m0 m1 m2 where "spans Bol s i m0" "spans csv_header s m0 m1" "spans (Chr NL) s m1 m2"
    unfolding csvLikePattern_def by (simp only: spans.simps(3)) blast
  then show "line_start s i \<and> (\<exists>m. row_at s i m \<and> m < length s \<and> s ! m = NL)"
    by (auto simp: line_start_def spans_header_row Chr_def)
next
  assume "line_start s i \<and> (\<exists>m. row_at s i m \<and> m < length s \<and> s ! m = NL)"
  then obtain m where m: "line_start s i" "row_at s i m" "m < length s" "s ! m = NL" by blast
  from m(1) have 1: "spans Bol s i i" by (simp add: line_start_def)
  from m(2) have 2: "spans csv_header s i m" by (simp only: spans_header_row)
  from m(3,4) have 3: "spans (Chr NL) s m (Suc m)" by (simp add: Chr_def)
  from m(3) have 4: "spans csv_rest s (Suc m) (length s)" by (intro rest_to_end) simp
  have 5: "spans Eol s (length s) (length s)" by simp
  from 1 2 3 4 5 have "spans csvLikePattern s i (length s)"
    unfolding csvLikePattern_def by (simp only: spans.simps(3)) blast
  then show "\<exists>j. spans csvLikePattern s i j" ..
qed

lemma row_at_less: "row_at s i m \<Longrightarrow> i < m"
  by (simp add: row_at_def)

theorem test_csvLikePattern: "test csvLikePattern s = has_header s"
proof -
  have "test csvLikePattern s
      = (\<exists>i \<le> length s. line_start s i \<and> (\<exists>m. row_at s i m \<and> m < length s \<and> s ! m = NL))"
    by (simp only: test_spans [OF no_group_csv] spans_csvLikePattern)
  also have "\<dots> = has_header s"
  proof
    assume "\<exists>i \<le> length s. line_start s i \<and> (\<exists>m. row_at s i m \<and> m < length s \<and> s ! m = NL)"
    then obtain i m where h: "line_start s i" "row_at s i m" "m < length s" "s ! m = NL" by blast
    from row_at_less [OF h(2)] h(3) have "i \<in> set [0 ..< length s]" "m \<in> set [i ..< length s]"
      by simp_all
    with h show "has_header s"
      unfolding has_header_def header_at_def list_ex_iff by blast
  next
    assume "has_header s"
    then obtain p j where "p \<in> set [0 ..< length s]" "line_start s p" "j \<in> set [p ..< length s]"
      "row_at s p j" "s ! j = NL"
      unfolding has_header_def header_at_def list_ex_iff by blast
    then have "p \<le> length s" "line_start s p" "row_at s p j \<and> j < length s \<and> s ! j = NL"
      by simp_all
    then show "\<exists>i \<le> length s. line_start s i \<and> (\<exists>m. row_at s i m \<and> m < length s \<and> s ! m = NL)"
      by blast
  qed
  finally show ?thesis .
qed



subsection \<open>Rule 1\<close>

lemma split_acc_eq:
  "split_acc d cur s =
     (rev cur @ takeWhile (\<lambda>c. c \<noteq> d) s)
     # (case dropWhile (\<lambda>c. c \<noteq> d) s of [] \<Rightarrow> [] | x # r \<Rightarrow> split_acc d [] r)"
  by (induction s arbitrary: cur) simp_all

lemma split_first_line:
  "split s NL = first_line s # (case dropWhile (\<lambda>c. c \<noteq> NL) s of [] \<Rightarrow> [] | x # r \<Rightarrow> split r NL)"
  unfolding split_def first_line_def by (subst split_acc_eq) simp

lemma split_not_Nil: "split s d \<noteq> []"
  unfolding split_def by (subst split_acc_eq) simp

lemma split_two_lines: "1 < length (split s NL) \<longleftrightarrow> NL \<in> set s"
proof (cases "dropWhile (\<lambda>c. c \<noteq> NL) s")
  case Nil
  then have "NL \<notin> set s" by (auto simp: dropWhile_eq_Nil_conv)
  moreover have "split s NL = [first_line s]"
    by (subst split_first_line) (simp only: Nil list.case)
  ultimately show ?thesis by simp
next
  case (Cons x r)
  have "x \<in> set (dropWhile (\<lambda>c. c \<noteq> NL) s)" unfolding Cons by simp
  then have "x \<in> set s" by (rule set_dropWhileD)
  moreover have "x = NL"
    using hd_dropWhile [of "\<lambda>c. c \<noteq> NL" s] unfolding Cons by simp
  moreover have "split s NL = first_line s # split r NL"
    by (subst split_first_line) (simp only: Cons list.case)
  ultimately show ?thesis
    using split_not_Nil [of r NL] by (cases "split r NL") simp_all
qed

lemma includes_single: "includes_str s [c] \<longleftrightarrow> c \<in> set s"
  by (induction s) auto

lemma set_trim: "set (trim s) \<subseteq> set s"
proof -
  have "set (trim s) = set (dropWhile is_space (rev (dropWhile is_space s)))"
    by (simp add: trim_def)
  also have "\<dots> \<subseteq> set (rev (dropWhile is_space s))" by (auto dest: set_dropWhileD)
  also have "\<dots> \<subseteq> set s" by (auto dest: set_dropWhileD)
  finally show ?thesis .
qed

lemma has_header_NL:
  assumes "has_header s"
  shows "NL \<in> set s"
proof -
  from assms obtain p j where "j \<in> set [p ..< length s]" "s ! j = NL"
    unfolding has_header_def header_at_def list_ex_iff by blast
  then have "j < length s" "s ! j = NL" by simp_all
  then show ?thesis by (metis nth_mem)
qed

lemma first_line_subset: "set (first_line s) \<subseteq> set s"
  unfolding first_line_def by (auto dest: set_takeWhileD)


lemma csvLikeRule_unfold:
  "csvLikeRule text =
     (if has_header (trim text) \<and> COMMA \<in> set text
         \<and> NL \<in> set (trim text) \<and> COMMA \<in> set (first_line (trim text))
      then Some (csv_info (trim text)) else None)"
proof -
  obtain ls where sp: "split (trim text) NL = first_line (trim text) # ls"
    using split_first_line [of "trim text"] by blast
  have len: "1 < length (first_line (trim text) # ls) \<longleftrightarrow> NL \<in> set (trim text)"
    using split_two_lines [of "trim text"] unfolding sp .
  have e: "csvLikeRule text =
     (if has_header (trim text) \<and> COMMA \<in> set text then
        (if 1 < length (first_line (trim text) # ls) \<and> COMMA \<in> set (first_line (trim text))
         then Some (csv_info (trim text)) else None)
      else None)"
    unfolding csvLikeRule_def sp test_csvLikePattern includes_single list.case csv_info_def
    by (rule refl)
  show ?thesis
    unfolding e len
    by (cases "has_header (trim text) \<and> COMMA \<in> set text";
        cases "NL \<in> set (trim text) \<and> COMMA \<in> set (first_line (trim text))")
       (simp_all only: if_True if_False simp_thms)
qed

lemma csvLikeRule_closed:
  "csvLikeRule text = (if csv_like (trim text) then Some (csv_info (trim text)) else None)"
proof -
  have "has_header (trim text) \<and> COMMA \<in> set text
         \<and> NL \<in> set (trim text) \<and> COMMA \<in> set (first_line (trim text))
       \<longleftrightarrow> csv_like (trim text)"
    using first_line_subset [of "trim text"] set_trim [of "text"] has_header_NL [of "trim text"]
    unfolding csv_like_def by blast
  then show ?thesis
    by (simp only: csvLikeRule_unfold)
qed



lemmas csv_eval = csv_like_def has_header_def header_at_def row_at_def line_start_def
  first_line_def is_line_terminator_def NL_def COMMA_def js_def trim_def is_space_def upt_rec





text \<open>
  Claim C3, amended.  Rule 1 yields the csv artifact (\<open>analysis_result.csv\<close>, the trimmed
  text verbatim) exactly when the trimmed text has a header and a comma in its first line:
  a header is a row that starts at the start of the text or behind a line terminator and
  ends at a line feed, and a row is a non-empty stretch without a line feed, without a
  comma at either end and without two commas in a row.  Nothing is asked of the lines
  behind the header.
\<close>

theorem csv_like_rule:
  "csvLikeRule text =
     (if csv_like (trim text)
      then Some \<lparr>hasFile = True, content = trim text, filename = js ''analysis_result.csv'',
                 extension = js ''csv'', mimeType = js ''text/csv'', ftype = js ''csv''\<rparr>
      else None)"
  by (simp only: csvLikeRule_closed csv_info_def)

theorem csv_like_rule_witness:
  "csvLikeRule ex_csv_padded
     = Some \<lparr>hasFile = True, content = ex_csv, filename = js ''analysis_result.csv'',
             extension = js ''csv'', mimeType = js ''text/csv'', ftype = js ''csv''\<rparr>
   \<and> csvLikeRule (js ''a,b'') = None"
proof -
  have t: "trim ex_csv_padded = ex_csv"
    by (simp add: ex_csv_padded_def ex_csv_def csv_eval)
  have c: "csv_like ex_csv"
    by (simp add: ex_csv_def csv_eval)
  have n: "\<not> csv_like (trim (js ''a,b''))"
    by (simp add: csv_eval)
  show ?thesis
    using csv_like_rule [of ex_csv_padded] csv_like_rule [of "js ''a,b''"] c n
    by (simp add: t)
qed

theorem csv_like_rule_counterexample:
  "csvLikeRule ex_csv_prose
     = Some \<lparr>hasFile = True, content = ex_csv_prose, filename = js ''analysis_result.csv'',
             extension = js ''csv'', mimeType = js ''text/csv'', ftype = js ''csv''\<rparr>
   \<and> split (trim ex_csv_prose) NL = [js ''a,b'', js ''hello'']
   \<and> \<not> every_line_has_comma (trim ex_csv_prose)
   \<and> csvLikeRule ex_csv_empty_field = None
   \<and> split (trim ex_csv_empty_field) NL = [js ''a,,b'', js ''c,d'']
   \<and> every_line_has_comma (trim ex_csv_empty_field)"
proof -
  have t: "trim ex_csv_prose = ex_csv_prose" "trim ex_csv_empty_field = ex_csv_empty_field"
    by (simp_all add: ex_csv_prose_def ex_csv_empty_field_def csv_eval)
  have c: "csv_like ex_csv_prose" "\<not> csv_like ex_csv_empty_field"
    by (simp_all add: ex_csv_prose_def ex_csv_empty_field_def csv_eval)
  have s: "split ex_csv_prose NL = [js ''a,b'', js ''hello'']"
    "split ex_csv_empty_field NL = [js ''a,,b'', js ''c,d'']"
    by (simp_all add: ex_csv_prose_def ex_csv_empty_field_def split_def NL_def js_def)
  have e: "\<not> every_line_has_comma ex_csv_prose" "every_line_has_comma ex_csv_empty_field"
    unfolding every_line_has_comma_def s by (simp_all add: js_def COMMA_def)
  show ?thesis
    using c s e by (simp add: csvLikeRule_closed csv_info_def t)
qed



lemmas json_eval = JSON_parse_ok_def json_ws_def is_digit_def is_hex_def is_escape_def
  json_digits1_def json_exponent_def json_fraction_def json_number_def json_literal_def
  js_def





text \<open>
  Claim C1.  The classifier answers an empty text with no artifact; else the csv artifact of
  rule 1 if the trimmed text is CSV-like, whatever fenced blocks it holds and whether or
  not it is JSON; else the artifact of the first fenced block of rule 2; else, if the
  trimmed text starts with an opening brace and ends with a closing brace (or with
  brackets) and parses as JSON, the json artifact with the trimmed text as content; else
  no artifact.
\<close>

theorem classifier_precedence:
  "detectDownloadableContent text =
     (if text = [] then None
      else if csv_like (trim text) then
        Some \<lparr>hasFile = True, content = trim text, filename = js ''analysis_result.csv'',
               extension = js ''csv'', mimeType = js ''text/csv'', ftype = js ''csv''\<rparr>
      else if codeBlockSpec text \<noteq> None then codeBlockSpec text
      else if json_shape (trim text) \<and> JSON_parse_ok (trim text) then
        Some \<lparr>hasFile = True, content = trim text, filename = js ''analysis_result.json'',
               extension = js ''json'', mimeType = js ''application/json'', ftype = js ''json''\<rparr>
      else None)"
  by (auto simp: detectDownloadableContent_def csvLikeRule_closed csv_info_def codeBlockRule_spec
      bareJsonRule_def json_shape_def Let_def split: option.splits)

theorem classifier_precedence_witness:
  \<open>detectDownloadableContent ex_csv
     = Some \<lparr>hasFile = True, content = js ''a,b'' @ [NL] @ js ''1,2'',
             filename = js ''analysis_result.csv'',
             extension = js ''csv'', mimeType = js ''text/csv'', ftype = js ''csv''\<rparr>
   \<and> codeBlockSpec ex_csv_and_block \<noteq> None
   \<and> detectDownloadableContent ex_csv_and_block
     = Some \<lparr>hasFile = True, content = ex_csv_and_block, filename = js ''analysis_result.csv'',
             extension = js ''csv'', mimeType = js ''text/csv'', ftype = js ''csv''\<rparr>
   \<and> JSON_parse_ok ex_json_two_lines
   \<and> detectDownloadableContent ex_json_two_lines
     = Some \<lparr>hasFile = True, content = ex_json_two_lines, filename = js ''analysis_result.csv'',
             extension = js ''csv'', mimeType = js ''text/csv'', ftype = js ''csv''\<rparr>
   \<and> detectDownloadableContent ex_json
     = Some \<lparr>hasFile = True, content = js ''{"x":1}'', filename = js ''analysis_result.json'',
             extension = js ''json'', mimeType = js ''application/json'', ftype = js ''json''\<rparr>
   \<and> detectDownloadableContent ex_not_json = None
   \<and> detectDownloadableContent (js ''plain words'') = None\<close>
proof -
  have 1: "ex_csv \<noteq> []" "trim ex_csv = ex_csv" "csv_like ex_csv"
    by (simp_all add: ex_csv_def csv_eval)
  have 2: "ex_csv_and_block \<noteq> []" "trim ex_csv_and_block = ex_csv_and_block"
    "csv_like ex_csv_and_block"
    by (simp_all add: ex_csv_and_block_def csv_eval FENCE_def BACKTICK_def)
  have 3: "codeBlockSpec ex_csv_and_block \<noteq> None"
    by (simp add: ex_csv_and_block_def block_eval)
  have 4: "ex_json \<noteq> []" "trim ex_json = ex_json" "\<not> csv_like ex_json"
    "codeBlockSpec ex_json = None" "json_shape ex_json" "JSON_parse_ok ex_json"
    by (simp_all add: ex_json_def csv_eval block_eval json_shape_def endsWith_def json_eval)
  have 5: "ex_not_json \<noteq> []" "trim ex_not_json = ex_not_json" "\<not> csv_like ex_not_json"
    "codeBlockSpec ex_not_json = None" "\<not> json_shape ex_not_json"
    by (simp_all add: ex_not_json_def csv_eval block_eval json_shape_def endsWith_def)
  have 6: "js ''plain words'' \<noteq> []" "\<not> csv_like (trim (js ''plain words''))"
    "codeBlockSpec (js ''plain words'') = None" "\<not> json_shape (trim (js ''plain words''))"
    by (simp_all add: csv_eval block_eval json_shape_def endsWith_def)
  have 7: "ex_json_two_lines \<noteq> []" "trim ex_json_two_lines = ex_json_two_lines"
    "csv_like ex_json_two_lines" "JSON_parse_ok ex_json_two_lines"
    by (simp_all add: ex_json_two_lines_def csv_eval json_eval)
  show ?thesis
    using classifier_precedence [of ex_csv] classifier_precedence [of ex_csv_and_block]
      classifier_precedence [of ex_json] classifier_precedence [of ex_not_json]
      classifier_precedence [of "js ''plain words''"]
      classifier_precedence [of ex_json_two_lines]
    by (simp add: 1 2 3 4 5 6 7) (simp add: ex_csv_def ex_json_def)
qed

end
